theory Spec2Isabelle
  imports Complex_Main
begin

section \<open>Numbers, dates and the Date object\<close>

text \<open>
  JavaScript numbers are modelled by real numbers (integers where the code only handles
  integers), and a number that may be NaN by the type \<open>number\<close> below. Infinities are
  outside the model, and so is rounding, except in the mean and the deviation of a
  column, where a test for exact zero depends on it.
  A value that may be \<open>null\<close> or \<open>undefined\<close> is an \<open>option\<close>, with \<open>None\<close> for both,
  as every test of the code is \<open>== null\<close> or \<open>!= null\<close>.
\<close>

type_synonym time_value = int

text \<open>
  The rounding of a real number to a double: to the nearest number with 53 significant
  binary digits, and of two nearest ones to the one whose last digit is even. The
  exponent is not bounded. The operations \<open>+\<close>, \<open>-\<close>, \<open>*\<close>, \<open>/\<close> and \<open>Math.sqrt\<close> on doubles
  give the rounding of the exact result.
\<close>

definition round_half_even :: "real \<Rightarrow> int" where
  "round_half_even y =
     (let f = \<lfloor>y\<rfloor>; r = y - of_int f in
      if r < 1 / 2 then f else if 1 / 2 < r then f + 1 else if even f then f else f + 1)"

definition round_double :: "real \<Rightarrow> real" where
  "round_double x =
     (if x = 0 then 0
      else let e = \<lfloor>log 2 \<bar>x\<bar>\<rfloor> - 52
           in of_int (round_half_even (x / 2 powr of_int e)) * 2 powr of_int e)"

definition fl_add :: "real \<Rightarrow> real \<Rightarrow> real" where
  "fl_add a b = round_double (a + b)"

definition fl_sub :: "real \<Rightarrow> real \<Rightarrow> real" where
  "fl_sub a b = round_double (a - b)"

definition fl_mul :: "real \<Rightarrow> real \<Rightarrow> real" where
  "fl_mul a b = round_double (a * b)"

definition fl_div :: "real \<Rightarrow> real \<Rightarrow> real" where
  "fl_div a b = round_double (a / b)"

definition fl_sqrt :: "real \<Rightarrow> real" where
  "fl_sqrt a = round_double (sqrt a)"

text \<open>
  The double that the literal \<open>0.1\<close> denotes, and the double \<open>-0.3\<close> that
  \<open>Number(raw) * 0.0001\<close> gives for the fill value \<open>-3000\<close> of the vegetation indices.
\<close>

definition tenth :: real where
  "tenth = 3602879701896397 / 2 ^ 55"

definition fill :: real where
  "fill = - 5404319552844595 / 2 ^ 54"

text \<open>
  A number that may be NaN, with \<open>Math.min\<close> and \<open>Math.max\<close> of a constant and such a
  number, and an arithmetic operation on two such numbers: NaN in gives NaN out.
\<close>

datatype 'a number = Num 'a | NaN

definition Math_min :: "'a::linorder \<Rightarrow> 'a number \<Rightarrow> 'a number" where
  "Math_min a x = (case x of NaN \<Rightarrow> NaN | Num b \<Rightarrow> Num (min a b))"

definition Math_max :: "'a::linorder \<Rightarrow> 'a number \<Rightarrow> 'a number" where
  "Math_max a x = (case x of NaN \<Rightarrow> NaN | Num b \<Rightarrow> Num (max a b))"

definition num2 :: "('a \<Rightarrow> 'b \<Rightarrow> 'c) \<Rightarrow> 'a number \<Rightarrow> 'b number \<Rightarrow> 'c number" where
  "num2 f a b =
     (case a of NaN \<Rightarrow> NaN | Num x \<Rightarrow> (case b of NaN \<Rightarrow> NaN | Num y \<Rightarrow> Num (f x y)))"

text \<open>A thrown \<open>Error\<close> with its message, or a \<open>TypeError\<close> or \<open>RangeError\<close> of the engine.\<close>

datatype error = Error string | TypeError | RangeError

subsection \<open>Time values\<close>

text \<open>
  The functions below are the date algorithms of the ECMAScript specification (clause
  "Time Values and Time Range") on time values in milliseconds.
\<close>

definition msPerDay :: int where
  "msPerDay = 1000 * 60 * 60 * 24"

definition Day :: "time_value \<Rightarrow> int" where
  "Day t = t div msPerDay"

definition TimeWithinDay :: "time_value \<Rightarrow> int" where
  "TimeWithinDay t = t mod msPerDay"

definition DaysInYear :: "int \<Rightarrow> int" where
  "DaysInYear y =
     (if y mod 4 \<noteq> 0 then 365
      else if y mod 100 \<noteq> 0 then 366
      else if y mod 400 \<noteq> 0 then 365
      else 366)"

definition DayFromYear :: "int \<Rightarrow> int" where
  "DayFromYear y =
     365 * (y - 1970) + (y - 1969) div 4 - (y - 1901) div 100 + (y - 1601) div 400"

text \<open>
  The specification defines \<open>YearFromTime t\<close> as the largest year whose first day is not
  after \<open>t\<close>. It is computed here from an estimate that is off by at most one year;
  \<open>YearFromTime_bounds\<close> and \<open>YearFromTime_unique\<close> below show that the result is that year.
\<close>

definition YearFromTime :: "time_value \<Rightarrow> int" where
  "YearFromTime t =
     (let y = 1970 + (400 * Day t) div 146097 in
      if DayFromYear (y + 1) \<le> Day t then y + 1
      else if DayFromYear y \<le> Day t then y
      else y - 1)"

definition InLeapYear :: "time_value \<Rightarrow> int" where
  "InLeapYear t = (if DaysInYear (YearFromTime t) = 366 then 1 else 0)"

definition DayWithinYear :: "time_value \<Rightarrow> int" where
  "DayWithinYear t = Day t - DayFromYear (YearFromTime t)"

text \<open>The number of days of a year before its month \<open>m\<close> (0 is January).\<close>

definition days_before_month :: "int \<Rightarrow> int \<Rightarrow> int" where
  "days_before_month leap m =
     (if m = 0 then 0 else if m = 1 then 31
      else if m = 2 then 59 + leap else if m = 3 then 90 + leap
      else if m = 4 then 120 + leap else if m = 5 then 151 + leap
      else if m = 6 then 181 + leap else if m = 7 then 212 + leap
      else if m = 8 then 243 + leap else if m = 9 then 273 + leap
      else if m = 10 then 304 + leap else 334 + leap)"

definition MonthFromTime :: "time_value \<Rightarrow> int" where
  "MonthFromTime t =
     (let d = DayWithinYear t; leap = InLeapYear t in
      if d < 31 then 0 else if d < 59 + leap then 1
      else if d < 90 + leap then 2 else if d < 120 + leap then 3
      else if d < 151 + leap then 4 else if d < 181 + leap then 5
      else if d < 212 + leap then 6 else if d < 243 + leap then 7
      else if d < 273 + leap then 8 else if d < 304 + leap then 9
      else if d < 334 + leap then 10 else 11)"

definition DateFromTime :: "time_value \<Rightarrow> int" where
  "DateFromTime t =
     DayWithinYear t - days_before_month (InLeapYear t) (MonthFromTime t) + 1"

definition MakeDay :: "int \<Rightarrow> int \<Rightarrow> int \<Rightarrow> int" where
  "MakeDay year month date =
     (let ym = year + month div 12; mn = month mod 12 in
      DayFromYear ym
        + days_before_month (if DaysInYear ym = 366 then 1 else 0) mn + date - 1)"

definition MakeDate :: "int \<Rightarrow> int \<Rightarrow> time_value" where
  "MakeDate day time = day * msPerDay + time"

text \<open>
  The time value of a \<open>Date\<close> is at most \<open>8.64e15\<close> in absolute value; \<open>TimeClip\<close> turns
  any other into NaN, the time value of an invalid \<open>Date\<close>.
\<close>

definition TimeClip :: "time_value \<Rightarrow> time_value number" where
  "TimeClip t = (if \<bar>t\<bar> \<le> 8640000000000000 then Num t else NaN)"

subsection \<open>Date texts\<close>

text \<open>
  A date text \<open>YYYY-MM-DD\<close> is modelled by the calendar day it denotes, counted in days
  from 1970-01-01: a day from 0000-01-01 to 9999-12-31.
\<close>

typedef iso_date = "{n :: int. DayFromYear 0 \<le> n \<and> n < DayFromYear 10000}"
  morphisms day_number iso_of_day
  by (rule exI[of _ 0]) (simp add: DayFromYear_def)

text \<open>
  The first ten characters of the text that \<open>toISOString\<close> gives for a valid \<open>Date\<close>: a
  date text when the year is from 0 to 9999, and otherwise the sign, the six digits of the
  year, a dash and the two digits of the month, as in \<open>+010000-01\<close>.
\<close>

datatype date_text = IsoDate iso_date | Expanded int int

definition iso_prefix :: "time_value \<Rightarrow> date_text" where
  "iso_prefix t =
     (let y = YearFromTime t in
      if 0 \<le> y \<and> y \<le> 9999 then IsoDate (iso_of_day (Day t))
      else Expanded y (MonthFromTime t + 1))"

text \<open>
  \<open>d.toISOString().slice(0,10)\<close> on the time value of the \<open>Date\<close>; \<open>toISOString\<close> throws a
  \<open>RangeError\<close> on an invalid \<open>Date\<close>.
\<close>

definition toISOString_date :: "time_value number \<Rightarrow> error + date_text" where
  "toISOString_date d = (case d of NaN \<Rightarrow> Inl RangeError | Num t \<Rightarrow> Inr (iso_prefix t))"

text \<open>
  The time value of \<open>new Date(txt + 'T00:00:00Z')\<close> before it is clipped. The text with a
  six-digit year and a month is read as the date-time format of the ECMAScript
  specification reads it, as the first day of that month.
\<close>

definition Date_of_iso :: "date_text \<Rightarrow> time_value" where
  "Date_of_iso txt =
     (case txt of
        IsoDate d \<Rightarrow> MakeDate (day_number d) 0
      | Expanded y m \<Rightarrow> MakeDate (MakeDay y (m - 1) 1) 0)"

subsection \<open>The Date object\<close>

text \<open>
  \<open>Date.UTC(year, month, date)\<close> before it is clipped: a year from 0 to 99 stands for
  1900 + year. \<open>Date_UTC\<close> is the time value of \<open>new Date(Date.UTC(year, month, date))\<close>.
\<close>

definition UTC_time :: "int \<Rightarrow> int \<Rightarrow> int \<Rightarrow> time_value" where
  "UTC_time year month date =
     (let yr = (if 0 \<le> year \<and> year \<le> 99 then 1900 + year else year) in
      MakeDate (MakeDay yr month date) 0)"

definition Date_UTC :: "int \<Rightarrow> int \<Rightarrow> int \<Rightarrow> time_value number" where
  "Date_UTC year month date = TimeClip (UTC_time year month date)"

text \<open>
  \<open>getUTCFullYear\<close> of a valid \<open>Date\<close>; \<open>getUTCDate\<close>, which is NaN for an invalid \<open>Date\<close>;
  and \<open>setUTCDate\<close>, which leaves an invalid \<open>Date\<close> invalid and makes a \<open>Date\<close> invalid when
  its argument is NaN or the new time value is out of range.
\<close>

definition getUTCFullYear :: "time_value \<Rightarrow> int" where
  "getUTCFullYear t = YearFromTime t"

definition getUTCDate :: "time_value number \<Rightarrow> int number" where
  "getUTCDate d = (case d of NaN \<Rightarrow> NaN | Num t \<Rightarrow> Num (DateFromTime t))"

definition setUTCDate :: "time_value number \<Rightarrow> int number \<Rightarrow> time_value number" where
  "setUTCDate d dt =
     (case d of
        NaN \<Rightarrow> NaN
      | Num t \<Rightarrow>
          (case dt of
             NaN \<Rightarrow> NaN
           | Num n \<Rightarrow>
               TimeClip (MakeDate (MakeDay (YearFromTime t) (MonthFromTime t) n)
                                  (TimeWithinDay t))))"

subsection \<open>Day-of-year conversions\<close>

text \<open>\<open>Utils.doyToDate\<close> of app.js.\<close>

definition Utils_doyToDate :: "int \<Rightarrow> int \<Rightarrow> error + date_text" where
  "Utils_doyToDate year doy =
     (let d = Date_UTC year 0 1;
          d = setUTCDate d (Num doy)
      in toISOString_date d)"

text \<open>\<open>ForecastManager._doyToDate\<close>, \<open>_doy\<close> and \<open>_toISO\<close> of forecast.js.\<close>

definition doyToDate :: "int \<Rightarrow> int \<Rightarrow> error + date_text" where
  "doyToDate year doy =
     (let d = Date_UTC year 0 1;
          d = setUTCDate d (map_number (\<lambda>x. x + (doy - 1)) (getUTCDate d))
      in toISOString_date d)"

text \<open>
  \<open>_doy\<close> is called on date texts and on the texts that the forecaster makes. Its two
  \<open>Date\<close>s are taken as time values: they are valid for these texts (\<open>doy_dates_valid\<close>
  below).
\<close>

definition doy :: "date_text \<Rightarrow> int" where
  "doy txt =
     (let d = Date_of_iso txt;
          start = UTC_time (getUTCFullYear d) 0 0;
          diff = d - start
      in diff div (1000 * 60 * 60 * 24))"

text \<open>
  The token handed to \<open>_toISO\<close>: four digits, a dash and three digits (split into two
  numbers), a date text, or anything else. \<open>utils\<close> tells whether the global
  \<open>Utils.doyToDate\<close> exists. The result is the text, or \<open>null\<close>, or what the converter
  throws.
\<close>

datatype modis_date = YearDoy int int | IsoText iso_date | OtherText

definition toISO :: "bool \<Rightarrow> modis_date \<Rightarrow> error + date_text option" where
  "toISO utils modisDate =
     (case modisDate of
        YearDoy y dn \<Rightarrow>
          (case (if utils then Utils_doyToDate y dn else doyToDate y dn) of
             Inl e \<Rightarrow> Inl e
           | Inr txt \<Rightarrow> Inr (Some txt))
      | IsoText s \<Rightarrow> Inr (Some (IsoDate s))
      | OtherText \<Rightarrow> Inr None)"

section \<open>Data model\<close>

text \<open>
  An object \<open>{date, value}\<close>, with the field \<open>value\<close> written \<open>val\<close>. An Observation of the
  input has a date text and a number or no value. The points that the forecaster makes
  have the same shape and are pushed into the rolling history beside the Observations;
  their date is what \<open>toISOString\<close> gave and their value may be NaN. \<open>as_point\<close> is an
  Observation as an element of such an array.
\<close>

record ('d, 'v) dated =
  date :: 'd
  val :: "'v option"

type_synonym observation = "(iso_date, real) dated"

type_synonym point = "(date_text, real number) dated"

definition as_point :: "observation \<Rightarrow> point" where
  "as_point ob = \<lparr>date = IsoDate (date ob), val = map_option Num (val ob)\<rparr>"

text \<open>
  One entry \<open>{tMean, pSum}\<close> of the weather object, and the object itself as the list of
  its properties in insertion order, which is the order of \<open>Object.keys\<close> for keys that
  are date texts. The keys of an object are distinct.
\<close>

record wx_entry =
  tMean :: "real option"
  pSum :: "real option"

type_synonym weather = "(iso_date \<times> wx_entry) list"

type_synonym matrix = "real list list"

text \<open>\<open>arr.filter(v => v != null)\<close> and \<open>arr.length ? sum / arr.length : null\<close>.\<close>

definition present :: "'a option list \<Rightarrow> 'a list" where
  "present xs = List.map_filter (\<lambda>v. v) xs"

definition mean_opt :: "real list \<Rightarrow> real option" where
  "mean_opt arr =
     (if arr \<noteq> [] then Some (foldl (+) 0 arr / real (length arr)) else None)"

text \<open>\<open>xs.slice(s, e)\<close> for \<open>0 \<le> s\<close>, and \<open>xs.slice(-k)\<close> for \<open>0 \<le> k\<close>.\<close>

definition slice :: "nat \<Rightarrow> nat \<Rightarrow> 'a list \<Rightarrow> 'a list" where
  "slice s e xs = drop s (take e xs)"

definition slice_last :: "nat \<Rightarrow> 'a list \<Rightarrow> 'a list" where
  "slice_last k xs = (if k = 0 then xs else drop (length xs - k) xs)"

section \<open>Linear algebra kernel\<close>

text \<open>
  \<open>_transpose\<close>, \<open>_matMul\<close>, \<open>_matVec\<close> and \<open>_mse\<close>. They are called on rectangular
  matrices with at least one row and on vectors of matching length.
\<close>

definition transposeM :: "matrix \<Rightarrow> matrix" where
  "transposeM A = map (\<lambda>i. map (\<lambda>r. r ! i) A) [0..<length (hd A)]"

definition matMul :: "matrix \<Rightarrow> matrix \<Rightarrow> matrix" where
  "matMul A B =
     map (\<lambda>r. map (\<lambda>j. foldl (\<lambda>s k. s + r ! k * (B ! k ! j)) 0 [0..<length r])
                  [0..<length (hd B)]) A"

definition matVec :: "matrix \<Rightarrow> real list \<Rightarrow> real list" where
  "matVec A v = map (\<lambda>r. foldl (\<lambda>s j. s + r ! j * v ! j) 0 [0..<length r]) A"

definition mse :: "real list \<Rightarrow> real list \<Rightarrow> real" where
  "mse yhat y =
     (let n = length y;
          s = foldl (\<lambda>s i. s + (yhat ! i - y ! i) ^ 2) 0 [0..<n]
      in s / real (max 1 n))"

subsection \<open>Gauss-Jordan inversion\<close>

definition identity :: "nat \<Rightarrow> matrix" where
  "identity n = map (\<lambda>i. map (\<lambda>j. if i = j then 1 else 0) [0..<n]) [0..<n]"

text \<open>
  The search \<open>let p=i; for(r=i+1;r<n;r++) if (|A[r][i]| > |A[p][i]|) p=r\<close>.
\<close>

definition pivot_row :: "matrix \<Rightarrow> nat \<Rightarrow> nat \<Rightarrow> nat" where
  "pivot_row A i n =
     fold (\<lambda>r p. if \<bar>A ! r ! i\<bar> > \<bar>A ! p ! i\<bar> then r else p) [i + 1..<n] i"

definition swap_rows :: "nat \<Rightarrow> nat \<Rightarrow> matrix \<Rightarrow> matrix" where
  "swap_rows i p A = (A[i := A ! p])[p := A ! i]"

text \<open>The position, before rows \<open>i\<close> and \<open>p\<close> were exchanged, of the row that is at \<open>r\<close> afterwards.\<close>

definition swapped :: "nat \<Rightarrow> nat \<Rightarrow> nat \<Rightarrow> nat" where
  "swapped i p r = (if r = p then i else if r = i then p else r)"

definition scale_row :: "real \<Rightarrow> real list \<Rightarrow> real list" where
  "scale_row c row = map (\<lambda>x. x * c) row"

definition sub_row :: "real \<Rightarrow> real list \<Rightarrow> real list \<Rightarrow> real list" where
  "sub_row f row pivot = map2 (\<lambda>a b. a - f * b) row pivot"

text \<open>
  One round of the outer loop on the pair \<open>(A, I)\<close>. The rows have \<open>n\<close> entries, so the
  inner loops over \<open>j < n\<close> run over whole rows. Every row but row \<open>i\<close> is reduced with the
  factor \<open>f = A[r][i]\<close> read before the row changes, and row \<open>i\<close> does not change during
  the elimination.
\<close>

definition gj_step :: "nat \<Rightarrow> nat \<Rightarrow> matrix \<times> matrix \<Rightarrow> error + matrix \<times> matrix" where
  "gj_step n i AI =
     (let A = fst AI; I = snd AI;
          p = pivot_row A i n
      in if \<bar>A ! p ! i\<bar> < 1 / 10 ^ 8 then Inl (Error ''Singular matrix'')
         else
           let A = swap_rows i p A; I = swap_rows i p I;
               invPivot = 1 / (A ! i ! i);
               A = A[i := scale_row invPivot (A ! i)];
               I = I[i := scale_row invPivot (I ! i)]
           in Inr (map (\<lambda>r. if r = i then A ! r else sub_row (A ! r ! i) (A ! r) (A ! i)) [0..<n],
                   map (\<lambda>r. if r = i then I ! r else sub_row (A ! r ! i) (I ! r) (I ! i)) [0..<n]))"

text \<open>The rounds \<open>i = 0, \<dots>, k - 1\<close>; a throw ends the loop.\<close>

definition gj_rounds :: "nat \<Rightarrow> nat \<Rightarrow> matrix \<times> matrix \<Rightarrow> error + matrix \<times> matrix" where
  "gj_rounds n k AI =
     fold (\<lambda>i st. case st of Inl e \<Rightarrow> Inl e | Inr AI' \<Rightarrow> gj_step n i AI') [0..<k] (Inr AI)"

definition invSym :: "matrix \<Rightarrow> error + matrix" where
  "invSym M =
     (let n = length M;
          A = map (\<lambda>r. r) M;
          I = identity n
      in case gj_rounds n n (A, I) of
           Inl e \<Rightarrow> Inl e
         | Inr AI \<Rightarrow> Inr (snd AI))"

section \<open>Feature builder\<close>

definition roll :: "observation list \<Rightarrow> nat \<Rightarrow> nat \<Rightarrow> real option" where
  "roll viSeries idx win =
     (let s = nat (max 0 (int idx - int win + 1));
          arr = present (map val (slice s (idx + 1) viSeries))
      in mean_opt arr)"

text \<open>\<open>byDate.get(d)\<close> on \<open>new Map(viSeries.map(v => [v.date, v.value]))\<close>: a later entry
  with the same date replaces an earlier one.\<close>

definition byDate :: "observation list \<Rightarrow> iso_date \<Rightarrow> real option" where
  "byDate viSeries d =
     (case map_of (rev (map (\<lambda>v. (date v, val v)) viSeries)) d of
        None \<Rightarrow> None
      | Some v \<Rightarrow> v)"

text \<open>\<open>wxByDate[d] || {}\<close>.\<close>

definition wx_at :: "weather \<Rightarrow> iso_date \<Rightarrow> wx_entry" where
  "wx_at wxByDate d =
     (case map_of wxByDate d of
        None \<Rightarrow> \<lparr>tMean = None, pSum = None\<rparr>
      | Some e \<Rightarrow> e)"

definition season_sin :: "date_text \<Rightarrow> real" where
  "season_sin d = sin (2 * pi * real_of_int (doy d) / 365)"

definition season_cos :: "date_text \<Rightarrow> real" where
  "season_cos d = cos (2 * pi * real_of_int (doy d) / 365)"

text \<open>
  The body of the loop of \<open>_buildDataset\<close> at index \<open>i\<close>: \<open>None\<close> is \<open>continue\<close>, otherwise
  the feature vector and the target that are pushed.
\<close>

definition sample_at :: "observation list \<Rightarrow> weather \<Rightarrow> nat \<Rightarrow> (real list \<times> real) option" where
  "sample_at viSeries wxByDate i =
     (let dates = map date viSeries;
          d = dates ! i;
          v = byDate viSeries d;
          lag1 = byDate viSeries (dates ! (i - 1));
          lag2 = byDate viSeries (dates ! (i - 2));
          r7 = roll viSeries i 3;
          wx = wx_at wxByDate d
      in case (v, lag1, lag2, r7, tMean wx, pSum wx) of
           (Some v, Some lag1, Some lag2, Some r7, Some t, Some p) \<Rightarrow>
             Some ([lag1, lag2, r7, season_sin (IsoDate d), season_cos (IsoDate d), t, p], v)
         | _ \<Rightarrow> None)"

definition buildDataset :: "observation list \<Rightarrow> weather \<Rightarrow> real list list \<times> real list" where
  "buildDataset viSeries wxByDate =
     fold (\<lambda>i xy. case sample_at viSeries wxByDate i of
                     None \<Rightarrow> xy
                   | Some fv \<Rightarrow> (fst xy @ [fst fv], snd xy @ [snd fv]))
          [2..<length viSeries] ([], [])"

section \<open>Model trainer\<close>

text \<open>
  The fitted model \<open>{type, infer, rmse}\<close>. The row given to \<open>infer\<close> may hold NaN, and so may
  its result and the training error of a network. The configuration holds the numbers
  made from the two input fields, which are NaN when \<open>parseInt\<close> and \<open>parseFloat\<close> are
  given a text that is not a number.
\<close>

record model =
  mtype :: string
  infer :: "real number list \<Rightarrow> real number"
  rmse :: "real number"

record config =
  epochs :: "int number"
  lr :: "real number"

text \<open>
  The optional neural backend (\<open>global.tf\<close>) is a parameter: from the standardized data
  and the configuration it gives the prediction function of the fitted network.
\<close>

type_synonym tf_backend =
  "real list list \<Rightarrow> real list \<Rightarrow> config \<Rightarrow> (real number list \<Rightarrow> real number)"

text \<open>
  The mean and the deviation of a column. The floor \<open>|| 1\<close> of the deviation replaces a
  computed number that is exactly zero, and whether it is depends on the rounding of each
  operation, so the two functions are computed in double arithmetic.
\<close>

definition col_mean :: "real list \<Rightarrow> real" where
  "col_mean col = fl_div (foldl fl_add 0 col) (real (length col))"

text \<open>\<open>Math.sqrt(\<dots> / Math.max(1, col.length - 1)) || 1\<close>.\<close>

definition col_sd :: "real list \<Rightarrow> real" where
  "col_sd col =
     (let m = col_mean col;
          s = fl_sqrt (fl_div (foldl (\<lambda>a b. fl_add a (fl_mul (fl_sub b m) (fl_sub b m))) 0 col)
                              (real (max 1 (length col - 1))))
      in if s = 0 then 1 else s)"

definition standardize :: "real \<Rightarrow> real \<Rightarrow> real \<Rightarrow> real" where
  "standardize m s v = (v - m) / s"

definition unstandardize :: "real \<Rightarrow> real \<Rightarrow> real \<Rightarrow> real" where
  "unstandardize m s z = z * s + m"

text \<open>
  \<open>row.map((v,j) => (v - mu[j]) / sig[j])\<close>, on a row of the dataset and on the row given
  to \<open>infer\<close>.
\<close>

definition standardize_row :: "real list \<Rightarrow> real list \<Rightarrow> real list \<Rightarrow> real list" where
  "standardize_row mu sig row =
     map (\<lambda>j. standardize (mu ! j) (sig ! j) (row ! j)) [0..<length row]"

definition standardize_input ::
  "real list \<Rightarrow> real list \<Rightarrow> real number list \<Rightarrow> real number list" where
  "standardize_input mu sig row =
     map (\<lambda>j. map_number (standardize (mu ! j) (sig ! j)) (row ! j)) [0..<length row]"

text \<open>\<open>infer\<close> of the linear model.\<close>

definition linear_infer ::
  "real list \<Rightarrow> real list \<Rightarrow> real \<Rightarrow> real \<Rightarrow> real list \<Rightarrow> real number list \<Rightarrow> real number" where
  "linear_infer mu sig yMu ySig w row =
     (let r = standardize_input mu sig row;
          yn = foldl (\<lambda>a idx. num2 (+) a (map_number (\<lambda>b. b * w ! idx) (r ! idx)))
                     (Num 0) [0..<length r]
      in map_number (unstandardize yMu ySig) yn)"

text \<open>
  The values that \<open>_trainModel\<close> computes before it looks for the backend, each from the
  feature rows \<open>X\<close> and the targets \<open>Y\<close> of the dataset: the column \<open>X.map(r => r[j])\<close>, the
  parameters \<open>mu\<close> and \<open>sig\<close>, the standardized rows \<open>xN\<close> and targets \<open>yN\<close>, and in the linear
  path the matrix \<open>XTX\<close> and the vector \<open>XTy\<close>.
\<close>

definition column :: "real list list \<Rightarrow> nat \<Rightarrow> real list" where
  "column X j = map (\<lambda>r. r ! j) X"

definition train_mu :: "real list list \<Rightarrow> real list" where
  "train_mu X = map (\<lambda>j. col_mean (column X j)) [0..<length (hd X)]"

definition train_sig :: "real list list \<Rightarrow> real list" where
  "train_sig X = map (\<lambda>j. col_sd (column X j)) [0..<length (hd X)]"

definition train_xN :: "real list list \<Rightarrow> real list list" where
  "train_xN X = map (standardize_row (train_mu X) (train_sig X)) X"

definition train_yN :: "real list \<Rightarrow> real list" where
  "train_yN Y = map (standardize (col_mean Y) (col_sd Y)) Y"

definition train_XTX :: "real list list \<Rightarrow> matrix" where
  "train_XTX X = matMul (transposeM (train_xN X)) (train_xN X)"

definition train_XTy :: "real list list \<Rightarrow> real list \<Rightarrow> real list" where
  "train_XTy X Y = matVec (transposeM (train_xN X)) (train_yN Y)"

text \<open>
  \<open>_trainModel\<close>. Reading \<open>X[0].length\<close> of an empty dataset is a \<open>TypeError\<close>; a throw of
  \<open>_invSym\<close> is not caught. The training error of the network is the root of the mean of
  the squared differences between its predictions and the standardized targets, times the
  deviation of the targets.
\<close>

definition trainModel :: "tf_backend option \<Rightarrow> real list list \<times> real list \<Rightarrow> config \<Rightarrow> error + model" where
  "trainModel tf ds cfg =
     (let X = fst ds; Y = snd ds in
      if X = [] then Inl TypeError
      else
        let mu = train_mu X;
            sig = train_sig X;
            xN = train_xN X;
            yMu = col_mean Y;
            ySig = col_sd Y;
            yN = train_yN Y
        in case tf of
             Some fit \<Rightarrow>
               let predict = fit xN yN cfg;
                   pred = map (\<lambda>r. predict (map Num r)) xN;
                   sq = map2 (\<lambda>p t. map_number (\<lambda>p. (p - t) ^ 2) p) pred yN
               in Inr \<lparr>mtype = ''tf'',
                       infer = (\<lambda>row. map_number (unstandardize yMu ySig)
                                        (predict (standardize_input mu sig row))),
                       rmse = map_number (\<lambda>s. sqrt (s / real (length sq)) * ySig)
                                (foldl (num2 (+)) (Num 0) sq)\<rparr>
           | None \<Rightarrow>
               let XTX = train_XTX X;
                   XTy = train_XTy X Y
               in case invSym XTX of
                    Inl e \<Rightarrow> Inl e
                  | Inr XTXinv \<Rightarrow>
                      let w = matVec XTXinv XTy
                      in Inr \<lparr>mtype = ''lin'',
                              infer = linear_infer mu sig yMu ySig w,
                              rmse = Num (sqrt (mse (matVec xN w) yN) * ySig)\<rparr>)"

text \<open>A matrix with \<open>n\<close> rows of \<open>n\<close> entries.\<close>

definition square :: "nat \<Rightarrow> matrix \<Rightarrow> bool" where
  "square n A = (length A = n \<and> list_all (\<lambda>r. length r = n) A)"

section \<open>Autoregressive forecaster\<close>

text \<open>
  The two constant weather proxies of \<open>_forecastNext30Days\<close> in forecast.js, computed
  before the loop.
\<close>

definition wx_recent :: "weather \<Rightarrow> iso_date list" where
  "wx_recent wxByDate =
     (let keys = map fst wxByDate
      in slice_last (min 30 (length keys)) keys)"

definition tConst :: "weather \<Rightarrow> real" where
  "tConst wxByDate =
     (let tArr = present (map (\<lambda>d. case map_of wxByDate d of None \<Rightarrow> None | Some e \<Rightarrow> tMean e)
                              (wx_recent wxByDate))
      in if tArr \<noteq> [] then foldl (+) 0 tArr / real (length tArr) else 10)"

definition pConst :: "weather \<Rightarrow> real" where
  "pConst wxByDate =
     (let pArr = present (map (\<lambda>d. case map_of wxByDate d of None \<Rightarrow> None | Some e \<Rightarrow> pSum e)
                              (wx_recent wxByDate))
      in if pArr \<noteq> [] then foldl (+) 0 pArr / real (length pArr) else 10)"

text \<open>The same proxy in the copy of the forecaster in app.js, which does not divide.\<close>

definition pConst_app :: "weather \<Rightarrow> real" where
  "pConst_app wxByDate =
     (let pArr = present (map (\<lambda>d. case map_of wxByDate d of None \<Rightarrow> None | Some e \<Rightarrow> pSum e)
                              (wx_recent wxByDate))
      in if pArr \<noteq> [] then foldl (+) 0 pArr else 10)"

text \<open>\<open>arr.length ? sum / arr.length : null\<close> on the values of the rolling history.\<close>

definition mean_num :: "real number list \<Rightarrow> real number option" where
  "mean_num arr =
     (if arr \<noteq> []
      then Some (map_number (\<lambda>s. s / real (length arr)) (foldl (num2 (+)) (Num 0) arr))
      else None)"

text \<open>
  One round of the loop on the Date \<open>d\<close>, the rolling history and the output. A throw of
  \<open>toISOString\<close> ends the round before anything is pushed.
\<close>

definition forecast_step ::
  "(real number list \<Rightarrow> real number) \<Rightarrow> real \<Rightarrow> real \<Rightarrow>
   time_value number \<times> point list \<times> point list \<Rightarrow>
   error + time_value number \<times> point list \<times> point list" where
  "forecast_step inferf tC pC st =
     (let d = fst st; hist = fst (snd st); out = snd (snd st);
          d = setUTCDate d (map_number (\<lambda>x. x + 1) (getUTCDate d))
      in case toISOString_date d of
           Inl e \<Rightarrow> Inl e
         | Inr txt \<Rightarrow>
             let len = length hist;
                 lag1 = (if 1 \<le> len then val (hist ! (len - 1)) else None);
                 lag2 = (if 2 \<le> len then val (hist ! (len - 2)) else None);
                 r3 = mean_num (present (map val (slice_last 3 hist)))
             in case (lag1, lag2, r3) of
                  (Some lag1, Some lag2, Some r3) \<Rightarrow>
                    let f = [lag1, lag2, r3, Num (season_sin txt), Num (season_cos txt),
                             Num tC, Num pC];
                        vhat = inferf f;
                        clipped = Math_max (- 0.1) (Math_min 1.0 vhat)
                    in Inr (d, hist @ [\<lparr>date = txt, val = Some clipped\<rparr>],
                               out @ [\<lparr>date = txt, val = Some clipped\<rparr>])
                | _ \<Rightarrow> Inr (d, hist, out @ [\<lparr>date = txt, val = None\<rparr>]))"

text \<open>
  Arrays live in a store, a list of arrays addressed by position, so that \<open>slice()\<close>
  allocates a new array and \<open>push\<close> changes the array at one address. The objects in
  an array are never written to by the forecaster, so they are kept as values. A round
  that throws leaves the store as it is.
\<close>

type_synonym store = "point list list"

definition store_step ::
  "(real number list \<Rightarrow> real number) \<Rightarrow> real \<Rightarrow> real \<Rightarrow> nat \<Rightarrow>
   store \<times> time_value number \<times> point list \<Rightarrow>
   store \<times> error + store \<times> time_value number \<times> point list" where
  "store_step inferf tC pC histAddr st =
     (let h = fst st; d = fst (snd st); out = snd (snd st)
      in case forecast_step inferf tC pC (d, h ! histAddr, out) of
           Inl e \<Rightarrow> Inl (h, e)
         | Inr r \<Rightarrow> Inr (h[histAddr := fst (snd r)], fst r, snd (snd r)))"

text \<open>
  \<open>_forecastNext30Days\<close>, given the store and the address of \<open>viSeries\<close>. The result is the
  store after the call with what the call returns or throws: reading \<open>.date\<close> of the last
  element of an empty history is a \<open>TypeError\<close>.
\<close>

definition forecastNext30Days ::
  "store \<Rightarrow> nat \<Rightarrow> weather \<Rightarrow> model \<Rightarrow> store \<times> (error + point list)" where
  "forecastNext30Days h viSeries wxByDate m =
     (let tC = tConst wxByDate; pC = pConst wxByDate;
          hist = length h;
          h = h @ [h ! viSeries]
      in if h ! hist = [] then (h, Inl TypeError)
         else
           let d = TimeClip (Date_of_iso (date (last (h ! hist))));
               st = fold (\<lambda>i st. case st of
                                    Inl he \<Rightarrow> Inl he
                                  | Inr s \<Rightarrow> store_step (infer m) tC pC hist s)
                         [1..<31] (Inr (h, d, []))
           in case st of
                Inl he \<Rightarrow> (fst he, Inl (snd he))
              | Inr s \<Rightarrow> (fst s, Inr (snd (snd s))))"

section \<open>The run\<close>

text \<open>
  An input field as \<open>parseInt\<close> or \<open>parseFloat\<close> sees it: no element or an empty text, for
  which the default text is parsed; a text that gives a number; a text that gives NaN.
\<close>

datatype 'a field = NoValue | Number 'a | NotANumber

text \<open>
  \<open>parseInt(field || dflt)\<close> and \<open>parseFloat(field || dflt)\<close>, where the default text holds
  the number \<open>dflt\<close>: the default stands in for a missing or empty text before the parse.
\<close>

definition parseInt_or :: "int \<Rightarrow> int field \<Rightarrow> int number" where
  "parseInt_or dflt f = (case f of NoValue \<Rightarrow> Num dflt | Number n \<Rightarrow> Num n | NotANumber \<Rightarrow> NaN)"

definition parseFloat_or :: "real \<Rightarrow> real field \<Rightarrow> real number" where
  "parseFloat_or dflt f = (case f of NoValue \<Rightarrow> Num dflt | Number x \<Rightarrow> Num x | NotANumber \<Rightarrow> NaN)"

definition run_epochs :: "int field \<Rightarrow> int number" where
  "run_epochs f = Math_max 20 (Math_min 1000 (parseInt_or 120 f))"

definition run_lr :: "real field \<Rightarrow> real number" where
  "run_lr f = Math_max 0.001 (Math_min 0.1 (parseFloat_or 0.01 f))"

text \<open>
  The page limit of \<open>loadPhotosAroundPoint\<close> in app.js,
  \<open>Utils.clamp(parseInt(field) || 5, 1, 20)\<close>: there the default stands in for the parsed
  number when that is NaN or 0.
\<close>

definition Utils_clamp :: "int \<Rightarrow> int \<Rightarrow> int \<Rightarrow> int" where
  "Utils_clamp v a b = max a (min b v)"

definition photos_max_pages :: "int field \<Rightarrow> int" where
  "photos_max_pages f =
     Utils_clamp (case f of Number n \<Rightarrow> (if n = 0 then 5 else n) | _ \<Rightarrow> 5) 1 20"

text \<open>
  How a run ends: the three messages written before a \<open>return\<close>, the \<open>catch\<close>, or the plot
  of the history and the forecast with the sample count and the training error.
\<close>

datatype outcome =
    NoHistory
  | InsufficientSamples
  | Failed error
  | Done nat "real number" "point list" "point list"

text \<open>
  \<open>run\<close> from the point where the history and the weather have been fetched. The
  history is the only array of the store; the plot reads it after the forecast.
\<close>

definition run ::
  "tf_backend option \<Rightarrow> int field \<Rightarrow> real field \<Rightarrow> observation list \<Rightarrow> weather \<Rightarrow> outcome" where
  "run tf epochsField lrField viSeries wxByDate =
     (let cfg = \<lparr>epochs = run_epochs epochsField, lr = run_lr lrField\<rparr> in
      if viSeries = [] then NoHistory
      else
        let ds = buildDataset viSeries wxByDate in
        if length (fst ds) < 24 then InsufficientSamples
        else
          case trainModel tf ds cfg of
            Inl e \<Rightarrow> Failed e
          | Inr m \<Rightarrow>
              (let r = forecastNext30Days [map as_point viSeries] 0 wxByDate m in
               case snd r of
                 Inl e \<Rightarrow> Failed e
               | Inr fc \<Rightarrow> Done (length (fst ds)) (rmse m) (fst r ! 0) fc))"

section \<open>The feature vectors as the specification words them\<close>

text \<open>
  The mean of the up-to-3 most recent non-absent values ending at index \<open>i\<close> inclusive,
  and the seven features of the sample at index \<open>i\<close> in their fixed order, each possibly
  absent: the values at \<open>i - 1\<close> and \<open>i - 2\<close>, that mean, the sine and cosine of the
  day-of-year of the date at \<open>i\<close>, and the mean temperature and total precipitation of
  that date.
\<close>

definition spec_rolling_mean :: "observation list \<Rightarrow> nat \<Rightarrow> real option" where
  "spec_rolling_mean obs i =
     (let vs = present (map (\<lambda>k. val (obs ! k)) [i - 2..<i + 1])
      in if vs = [] then None else Some (sum_list vs / real (length vs)))"

definition spec_features :: "observation list \<Rightarrow> weather \<Rightarrow> nat \<Rightarrow> real option list" where
  "spec_features obs wx i =
     [val (obs ! (i - 1)),
      val (obs ! (i - 2)),
      spec_rolling_mean obs i,
      Some (sin (2 * pi * real_of_int (doy (IsoDate (date (obs ! i)))) / 365)),
      Some (cos (2 * pi * real_of_int (doy (IsoDate (date (obs ! i)))) / 365)),
      tMean (wx_at wx (date (obs ! i))),
      pSum (wx_at wx (date (obs ! i)))]"

text \<open>
  The feature vector of a forecast step on the rolling history \<open>hist\<close> for the new date
  \<open>txt\<close>: the last two values of the history and the mean of its last up-to-3 values
  that are not absent, the sine and cosine of the day-of-year of the new date, and the
  two constant weather proxies. There is none when one of the first three is absent. The
  mean of values of which one is NaN is NaN.
\<close>

definition spec_mean :: "real number list \<Rightarrow> real number" where
  "spec_mean vs =
     (if NaN \<in> set vs then NaN
      else Num (sum_list (map (\<lambda>v. case v of Num x \<Rightarrow> x | NaN \<Rightarrow> 0) vs) / real (length vs)))"

definition spec_step_features :: "weather \<Rightarrow> point list \<Rightarrow> date_text \<Rightarrow> real number list option" where
  "spec_step_features wx hist txt =
     (let n = length hist;
          vs = present (map val (drop (n - 3) hist))
      in if n < 2 \<or> val (hist ! (n - 1)) = None \<or> val (hist ! (n - 2)) = None \<or> vs = []
         then None
         else Some [the (val (hist ! (n - 1))), the (val (hist ! (n - 2))), spec_mean vs,
                    Num (sin (2 * pi * real_of_int (doy txt) / 365)),
                    Num (cos (2 * pi * real_of_int (doy txt) / 365)),
                    Num (tConst wx), Num (pConst wx)])"

text \<open>
  What the specification says of the point \<open>p\<close> of a forecast step on the rolling history
  \<open>hist\<close>: its value is absent when there is no feature vector, and otherwise it is the
  number that \<open>infer\<close> gives for the feature vector, moved into the interval from -0.1 to
  1. Nothing is said for a result of \<open>infer\<close> that is NaN.
\<close>

definition point_as_specified ::
  "(real number list \<Rightarrow> real number) \<Rightarrow> weather \<Rightarrow> point list \<Rightarrow> point \<Rightarrow> bool" where
  "point_as_specified inferf wx hist p =
     (case spec_step_features wx hist (date p) of
        None \<Rightarrow> val p = None
      | Some f \<Rightarrow>
          (case inferf f of
             Num v \<Rightarrow> val p = Some (Num (max (- 0.1) (min 1 v)))
           | NaN \<Rightarrow> True))"

text \<open>
  The point that a round of the loop makes for the text \<open>txt\<close> from the rolling history,
  written with the feature vector above.
\<close>

definition step_point ::
  "(real number list \<Rightarrow> real number) \<Rightarrow> weather \<Rightarrow> point list \<Rightarrow> date_text \<Rightarrow> point" where
  "step_point inferf wx hist txt =
     (case spec_step_features wx hist txt of
        None \<Rightarrow> \<lparr>date = txt, val = None\<rparr>
      | Some f \<Rightarrow> \<lparr>date = txt, val = Some (Math_max (- 0.1) (Math_min 1.0 (inferf f)))\<rparr>)"

section \<open>Properties of the calendar functions\<close>

lemma div_lower: "0 < (k::int) \<Longrightarrow> k * (a div k) \<le> a"
  using mult_div_mod_eq[of k a] pos_mod_sign[of k a] by linarith

lemma div_upper: "0 < (k::int) \<Longrightarrow> a - k + 1 \<le> k * (a div k)"
  using mult_div_mod_eq[of k a] pos_mod_bound[of k a] by linarith

lemma DayFromYear_split:
  obtains a b c where "DayFromYear y = 365 * (y - 1970) + a - b + c"
    "4 * a \<le> y - 1969" "y - 1972 \<le> 4 * a"
    "100 * b \<le> y - 1901" "y - 2000 \<le> 100 * b"
    "400 * c \<le> y - 1601" "y - 2000 \<le> 400 * c"
proof -
  define a where "a = (y - 1969) div 4"
  define b where "b = (y - 1901) div 100"
  define c where "c = (y - 1601) div 400"
  have 1: "DayFromYear y = 365 * (y - 1970) + a - b + c"
    by (simp only: DayFromYear_def a_def b_def c_def)
  have 2: "4 * a \<le> y - 1969" "y - 1972 \<le> 4 * a"
    using div_lower[of 4 "y - 1969"] div_upper[of 4 "y - 1969"] by (simp_all add: a_def)
  have 3: "100 * b \<le> y - 1901" "y - 2000 \<le> 100 * b"
    using div_lower[of 100 "y - 1901"] div_upper[of 100 "y - 1901"] by (simp_all add: b_def)
  have 4: "400 * c \<le> y - 1601" "y - 2000 \<le> 400 * c"
    using div_lower[of 400 "y - 1601"] div_upper[of 400 "y - 1601"] by (simp_all add: c_def)
  show thesis using that[OF 1 2 3 4] .
qed

lemma DayFromYear_lo: "146097 * (y - 1970) - 600 \<le> 400 * DayFromYear y"
proof -
  obtain a b c where "DayFromYear y = 365 * (y - 1970) + a - b + c"
    "4 * a \<le> y - 1969" "y - 1972 \<le> 4 * a"
    "100 * b \<le> y - 1901" "y - 2000 \<le> 100 * b"
    "400 * c \<le> y - 1601" "y - 2000 \<le> 400 * c"
    by (rule DayFromYear_split)
  then show ?thesis by simp
qed

lemma DayFromYear_hi: "400 * DayFromYear y \<le> 146097 * (y - 1970) + 600"
proof -
  obtain a b c where "DayFromYear y = 365 * (y - 1970) + a - b + c"
    "4 * a \<le> y - 1969" "y - 1972 \<le> 4 * a"
    "100 * b \<le> y - 1901" "y - 2000 \<le> 100 * b"
    "400 * c \<le> y - 1601" "y - 2000 \<le> 400 * c"
    by (rule DayFromYear_split)
  then show ?thesis by simp
qed

lemma DayFromYear_less:
  assumes "y < y'"
  shows "DayFromYear y < DayFromYear y'"
proof -
  obtain a b c where 1: "DayFromYear y = 365 * (y - 1970) + a - b + c"
    "4 * a \<le> y - 1969" "y - 1972 \<le> 4 * a"
    "100 * b \<le> y - 1901" "y - 2000 \<le> 100 * b"
    "400 * c \<le> y - 1601" "y - 2000 \<le> 400 * c"
    by (rule DayFromYear_split)
  obtain a' b' c' where 2: "DayFromYear y' = 365 * (y' - 1970) + a' - b' + c'"
    "4 * a' \<le> y' - 1969" "y' - 1972 \<le> 4 * a'"
    "100 * b' \<le> y' - 1901" "y' - 2000 \<le> 100 * b'"
    "400 * c' \<le> y' - 1601" "y' - 2000 \<le> 400 * c'"
    by (rule DayFromYear_split)
  have "a \<le> a'" using 1(2) 2(3) assms by linarith
  moreover have "c \<le> c'" using 1(6) 2(7) assms by linarith
  moreover have "100 * b' - 100 * b \<le> y' - y + 99" using 1(5) 2(4) by linarith
  ultimately show ?thesis using 1(1) 2(1) assms by simp
qed

lemma DayFromYear_le: "y \<le> y' \<Longrightarrow> DayFromYear y \<le> DayFromYear y'"
  using DayFromYear_less[of y y'] by (cases "y = y'") auto

lemma YearFromTime_bounds:
  "DayFromYear (YearFromTime t) \<le> Day t \<and> Day t < DayFromYear (YearFromTime t + 1)"
proof -
  define d where "d = Day t"
  define y where "y = 1970 + (400 * d) div 146097"
  have e1: "146097 * (y - 1970) \<le> 400 * d"
    using div_lower[of 146097 "400 * d"] by (simp add: y_def)
  have e2: "400 * d - 146096 \<le> 146097 * (y - 1970)"
    using div_upper[of 146097 "400 * d"] by (simp add: y_def)
  have Y: "YearFromTime t =
      (if DayFromYear (y + 1) \<le> d then y + 1 else if DayFromYear y \<le> d then y else y - 1)"
    by (simp add: YearFromTime_def Let_def d_def y_def)
  have up: "d < DayFromYear (y + 2)"
    using DayFromYear_lo[of "y + 2"] e2 by simp
  have lo: "DayFromYear (y - 1) \<le> d"
    using DayFromYear_hi[of "y - 1"] e1 by simp
  show ?thesis
    unfolding Y d_def[symmetric] using up lo by (auto simp: add.commute)
qed

lemma YearFromTime_unique:
  assumes "DayFromYear y \<le> Day t" "Day t < DayFromYear (y + 1)"
  shows "YearFromTime t = y"
proof (rule ccontr)
  assume ne: "YearFromTime t \<noteq> y"
  let ?Y = "YearFromTime t"
  from YearFromTime_bounds[of t]
  have b: "DayFromYear ?Y \<le> Day t" "Day t < DayFromYear (?Y + 1)" by auto
  from ne consider "?Y + 1 \<le> y" | "y + 1 \<le> ?Y" by linarith
  then show False
  proof cases
    case 1
    from DayFromYear_le[OF 1] b(2) assms(1) show False by linarith
  next
    case 2
    from DayFromYear_le[OF 2] b(1) assms(2) show False by linarith
  qed
qed

lemma Day_MakeDate: "0 \<le> tm \<Longrightarrow> tm < msPerDay \<Longrightarrow> Day (MakeDate d tm) = d"
  by (simp add: Day_def MakeDate_def msPerDay_def div_pos_pos_trivial)

lemma Day_MakeDate0 [simp]: "Day (MakeDate d 0) = d"
  by (simp add: Day_def MakeDate_def msPerDay_def)

lemma MonthFromTime_range: "0 \<le> MonthFromTime t \<and> MonthFromTime t \<le> 11"
  by (simp add: MonthFromTime_def Let_def)

lemma MakeDay_of_fields:
  "MakeDay (YearFromTime t) (MonthFromTime t) (DateFromTime t + k) = Day t + k"
proof -
  have m: "MonthFromTime t div 12 = 0" "MonthFromTime t mod 12 = MonthFromTime t"
    using MonthFromTime_range[of t] by (simp_all add: div_pos_pos_trivial)
  show ?thesis
    by (simp add: MakeDay_def Let_def m DateFromTime_def DayWithinYear_def InLeapYear_def)
qed

lemma TimeClip_in_range: "\<bar>t\<bar> \<le> 8640000000000000 \<Longrightarrow> TimeClip t = Num t"
  by (simp add: TimeClip_def)

lemma setUTCDate_next:
  "setUTCDate (Num t) (map_number (\<lambda>x. x + k) (getUTCDate (Num t))) = TimeClip (t + k * msPerDay)"
proof -
  have "t = Day t * msPerDay + TimeWithinDay t"
    by (simp add: Day_def TimeWithinDay_def)
  moreover have "MakeDate (MakeDay (YearFromTime t) (MonthFromTime t) (DateFromTime t + k))
        (TimeWithinDay t) = (Day t + k) * msPerDay + TimeWithinDay t"
    by (simp only: MakeDay_of_fields MakeDate_def)
  ultimately have "MakeDate (MakeDay (YearFromTime t) (MonthFromTime t) (DateFromTime t + k))
        (TimeWithinDay t) = t + k * msPerDay"
    by (simp add: algebra_simps)
  then show ?thesis by (simp add: setUTCDate_def getUTCDate_def)
qed

lemma YearFromTime_first_day:
  "YearFromTime (MakeDate (DayFromYear y) 0) = y"
  by (rule YearFromTime_unique) (simp_all add: DayFromYear_less)

lemma fields_first_day:
  "DayWithinYear (MakeDate (DayFromYear y) 0) = 0"
  "MonthFromTime (MakeDate (DayFromYear y) 0) = 0"
  "DateFromTime (MakeDate (DayFromYear y) 0) = 1"
  by (simp_all add: DayWithinYear_def MonthFromTime_def DateFromTime_def Let_def
      YearFromTime_first_day InLeapYear_def days_before_month_def)

lemma MakeDay_january: "MakeDay y 0 dt = DayFromYear y + dt - 1"
  by (simp add: MakeDay_def days_before_month_def)

lemma UTC_time_january:
  "UTC_time year 0 dt =
     MakeDate (DayFromYear (if 0 \<le> year \<and> year \<le> 99 then 1900 + year else year) + dt - 1) 0"
  by (simp add: UTC_time_def MakeDay_january Let_def)

text \<open>
  Both converters: an invalid \<open>Date\<close> when 1 January of the year is out of range, and
  otherwise the \<open>Date\<close> \<open>dn - 1\<close> days later.
\<close>

lemma doyToDate_eq:
  fixes year :: int
  defines "yr \<equiv> (if 0 \<le> year \<and> year \<le> 99 then 1900 + year else year)"
  shows "doyToDate year dn =
     (case TimeClip (MakeDate (DayFromYear yr) 0) of
        NaN \<Rightarrow> Inl RangeError
      | Num t \<Rightarrow> toISOString_date (TimeClip (t + (dn - 1) * msPerDay)))"
proof -
  have d: "Date_UTC year 0 1 = TimeClip (MakeDate (DayFromYear yr) 0)"
    by (simp add: Date_UTC_def UTC_time_january yr_def)
  show ?thesis
  proof (cases "TimeClip (MakeDate (DayFromYear yr) 0)")
    case (Num t)
    then show ?thesis
      by (simp add: doyToDate_def Let_def d setUTCDate_next)
  next
    case NaN
    then show ?thesis
      by (simp add: doyToDate_def Let_def d setUTCDate_def toISOString_date_def)
  qed
qed

lemma Utils_doyToDate_eq: "Utils_doyToDate year dn = doyToDate year dn"
proof -
  define yr where "yr = (if 0 \<le> year \<and> year \<le> 99 then 1900 + year else year)"
  have d: "Date_UTC year 0 1 = TimeClip (MakeDate (DayFromYear yr) 0)"
    by (simp add: Date_UTC_def UTC_time_january yr_def)
  show ?thesis
  proof (cases "TimeClip (MakeDate (DayFromYear yr) 0)")
    case (Num t)
    then have t: "t = MakeDate (DayFromYear yr) 0" by (simp add: TimeClip_def split: if_splits)
    have "getUTCDate (Num t) = Num 1"
      unfolding t by (simp add: getUTCDate_def fields_first_day)
    then have "map_number (\<lambda>x. x + (dn - 1)) (getUTCDate (Num t)) = Num dn" by simp
    then show ?thesis
      by (simp add: Utils_doyToDate_def doyToDate_def Let_def d Num)
  next
    case NaN
    then show ?thesis
      by (simp add: Utils_doyToDate_def doyToDate_def Let_def d setUTCDate_def)
  qed
qed

text \<open>The year of a time value between the first days of two years.\<close>

lemma YearFromTime_between:
  assumes "DayFromYear a \<le> Day t" "Day t < DayFromYear b"
  shows "a \<le> YearFromTime t \<and> YearFromTime t < b"
proof -
  let ?Y = "YearFromTime t"
  from YearFromTime_bounds[of t]
  have y: "DayFromYear ?Y \<le> Day t" "Day t < DayFromYear (?Y + 1)" by auto
  have "a \<le> ?Y"
  proof (rule ccontr)
    assume "\<not> a \<le> ?Y"
    then have "?Y + 1 \<le> a" by simp
    from DayFromYear_le[OF this] y(2) assms(1) show False by linarith
  qed
  moreover have "?Y < b"
  proof (rule ccontr)
    assume "\<not> ?Y < b"
    then have "b \<le> ?Y" by simp
    from DayFromYear_le[OF this] y(1) assms(2) show False by linarith
  qed
  ultimately show ?thesis by simp
qed

lemma day_number_iso_of_day [simp]:
  "DayFromYear 0 \<le> n \<Longrightarrow> n < DayFromYear 10000 \<Longrightarrow> day_number (iso_of_day n) = n"
  by (simp add: iso_of_day_inverse)

lemma day_number_range: "DayFromYear 0 \<le> day_number d \<and> day_number d < DayFromYear 10000"
  using day_number[of d] by simp

lemma DayFromYear_limits: "DayFromYear 0 = - 719528" "DayFromYear 10000 = 2932897"
  by (simp_all add: DayFromYear_def)

lemma iso_of_day_eq_iff [simp]:
  "- 719528 \<le> a \<Longrightarrow> a < 2932897 \<Longrightarrow> - 719528 \<le> b \<Longrightarrow> b < 2932897 \<Longrightarrow>
     iso_of_day a = iso_of_day b \<longleftrightarrow> a = b"
  by (simp add: iso_of_day_inject DayFromYear_limits)

lemma day_number_literal [simp]:
  "- 719528 \<le> n \<Longrightarrow> n < 2932897 \<Longrightarrow> day_number (iso_of_day n) = n"
  by (simp add: DayFromYear_limits)

lemma iso_prefix_date:
  assumes "DayFromYear 0 \<le> Day t" "Day t < DayFromYear 10000"
  shows "iso_prefix t = IsoDate (iso_of_day (Day t))"
  using YearFromTime_between[OF assms] by (simp add: iso_prefix_def Let_def)



lemma div_succ:
  fixes a k :: int assumes "0 < k"
  shows "(a + 1) div k = (if (a + 1) mod k = 0 then a div k + 1 else a div k)"
proof -
  define q where "q = (a + 1) div k"
  define r where "r = (a + 1) mod k"
  have eq: "a + 1 = k * q + r" and r: "0 \<le> r" "r < k"
    using assms by (simp_all add: q_def r_def)
  show ?thesis
  proof (cases "r = 0")
    case True
    then have "a = k * (q - 1) + (k - 1)" using eq by (simp add: algebra_simps)
    then have "a div k = q - 1" using assms by (intro int_div_pos_eq[where r="k - 1"]) auto
    then show ?thesis using True by (simp add: q_def r_def)
  next
    case False
    then have "a = k * q + (r - 1)" using eq by simp
    then have "a div k = q" using assms r False by (intro int_div_pos_eq[where r="r - 1"]) auto
    then show ?thesis using False by (simp add: q_def r_def)
  qed
qed

lemma mod_shift: fixes y :: int shows
  "(y - 1968) mod 4 = y mod 4" "(y - 1900) mod 100 = y mod 100" "(y - 1600) mod 400 = y mod 400"
proof -
  have "(y - 1968) mod 4 = (y + 4 * (- 492)) mod 4" by simp
  also have "\<dots> = y mod 4" by (rule mod_mult_self2)
  finally show "(y - 1968) mod 4 = y mod 4" .
  have "(y - 1900) mod 100 = (y + 100 * (- 19)) mod 100" by simp
  also have "\<dots> = y mod 100" by (rule mod_mult_self2)
  finally show "(y - 1900) mod 100 = y mod 100" .
  have "(y - 1600) mod 400 = (y + 400 * (- 4)) mod 400" by simp
  also have "\<dots> = y mod 400" by (rule mod_mult_self2)
  finally show "(y - 1600) mod 400 = y mod 400" .
qed

lemma mod_chain: fixes y :: int shows
  "y mod 100 = 0 \<Longrightarrow> y mod 4 = 0" "y mod 400 = 0 \<Longrightarrow> y mod 100 = 0"
proof -
  have a: "(4::int) dvd 100" by simp
  have b: "(100::int) dvd 400" by simp
  show "y mod 100 = 0 \<Longrightarrow> y mod 4 = 0"
    using dvd_trans[OF a, of y] by (simp add: dvd_eq_mod_eq_0)
  show "y mod 400 = 0 \<Longrightarrow> y mod 100 = 0"
    using dvd_trans[OF b, of y] by (simp add: dvd_eq_mod_eq_0)
qed

lemma DayFromYear_Suc: "DayFromYear (y + 1) = DayFromYear y + DaysInYear y"
proof -
  have a: "(y + 1 - 1969) div 4 = (y - 1969) div 4 + (if y mod 4 = 0 then 1 else 0)"
    using div_succ[of 4 "y - 1969"] mod_shift(1)[of y] by (simp add: algebra_simps)
  have b: "(y + 1 - 1901) div 100 = (y - 1901) div 100 + (if y mod 100 = 0 then 1 else 0)"
    using div_succ[of 100 "y - 1901"] mod_shift(2)[of y] by (simp add: algebra_simps)
  have c: "(y + 1 - 1601) div 400 = (y - 1601) div 400 + (if y mod 400 = 0 then 1 else 0)"
    using div_succ[of 400 "y - 1601"] mod_shift(3)[of y] by (simp add: algebra_simps)
  show ?thesis
    unfolding DayFromYear_def DaysInYear_def a b c
    using mod_chain[of y] by auto
qed


lemma DayWithinYear_bounds:
  "0 \<le> DayWithinYear t \<and> DayWithinYear t < DaysInYear (YearFromTime t)"
  using YearFromTime_bounds[of t] DayFromYear_Suc[of "YearFromTime t"]
  by (simp add: DayWithinYear_def)

lemma nth_day_of_year:
  assumes "1 \<le> dn" "dn \<le> DaysInYear y"
  shows "YearFromTime (MakeDate (DayFromYear y + (dn - 1)) 0) = y"
    and "DayWithinYear (MakeDate (DayFromYear y + (dn - 1)) 0) = dn - 1"
proof -
  show y: "YearFromTime (MakeDate (DayFromYear y + (dn - 1)) 0) = y"
    using assms DayFromYear_Suc[of y]
    by (intro YearFromTime_unique) simp_all
  show "DayWithinYear (MakeDate (DayFromYear y + (dn - 1)) 0) = dn - 1"
    unfolding DayWithinYear_def y by simp
qed


text \<open>
  The two \<open>Date\<close>s of \<open>_doy\<close> are valid on a date text, and on the text \<open>+010000-01\<close>,
  which is the only other text that the forecaster makes within 30 days of a date text.
\<close>

lemma doy_dates_valid:
  "TimeClip (Date_of_iso (IsoDate d)) = Num (Date_of_iso (IsoDate d))"
  "TimeClip (UTC_time (getUTCFullYear (Date_of_iso (IsoDate d))) 0 0)
     = Num (UTC_time (getUTCFullYear (Date_of_iso (IsoDate d))) 0 0)"
  "TimeClip (Date_of_iso (Expanded 10000 1)) = Num (Date_of_iso (Expanded 10000 1))"
  "TimeClip (UTC_time (getUTCFullYear (Date_of_iso (Expanded 10000 1))) 0 0)
     = Num (UTC_time (getUTCFullYear (Date_of_iso (Expanded 10000 1))) 0 0)"
proof -
  let ?t = "Date_of_iso (IsoDate d)"
  have n: "- 719528 \<le> day_number d" "day_number d < 2932897"
    using day_number_range[of d] by (simp_all add: DayFromYear_limits)
  have t: "?t = day_number d * msPerDay" by (simp add: Date_of_iso_def MakeDate_def)
  show "TimeClip ?t = Num ?t"
    using n by (intro TimeClip_in_range) (simp add: t msPerDay_def)
  have "Day ?t = day_number d" by (simp add: Date_of_iso_def)
  then have y: "0 \<le> YearFromTime ?t" "YearFromTime ?t < 10000"
    using YearFromTime_between[of 0 ?t 10000] day_number_range[of d] by simp_all
  define yr where "yr = (if YearFromTime ?t \<le> 99 then 1900 + YearFromTime ?t else YearFromTime ?t)"
  have yr: "0 \<le> yr" "yr < 10000" using y by (simp_all add: yr_def)
  have u: "UTC_time (getUTCFullYear ?t) 0 0 = (DayFromYear yr - 1) * msPerDay"
    using y by (simp add: UTC_time_january getUTCFullYear_def yr_def MakeDate_def)
  have "DayFromYear 0 \<le> DayFromYear yr" "DayFromYear yr \<le> DayFromYear 10000"
    using yr by (simp_all add: DayFromYear_le)
  then have b: "- 719528 \<le> DayFromYear yr" "DayFromYear yr \<le> 2932897"
    by (simp_all add: DayFromYear_limits)
  show "TimeClip (UTC_time (getUTCFullYear ?t) 0 0) = Num (UTC_time (getUTCFullYear ?t) 0 0)"
    unfolding u using b by (intro TimeClip_in_range) (simp add: msPerDay_def)
  have e: "Date_of_iso (Expanded 10000 1) = MakeDate (DayFromYear 10000) 0"
    by (simp add: Date_of_iso_def MakeDay_january)
  show "TimeClip (Date_of_iso (Expanded 10000 1)) = Num (Date_of_iso (Expanded 10000 1))"
    unfolding e by (intro TimeClip_in_range) (simp add: MakeDate_def DayFromYear_limits msPerDay_def)
  have y: "getUTCFullYear (MakeDate (DayFromYear 10000) 0) = 10000"
    unfolding getUTCFullYear_def by (rule YearFromTime_first_day)
  have "UTC_time (getUTCFullYear (Date_of_iso (Expanded 10000 1))) 0 0
      = (DayFromYear 10000 - 1) * msPerDay"
    unfolding e y by (simp add: UTC_time_january MakeDate_def)
  then show "TimeClip (UTC_time (getUTCFullYear (Date_of_iso (Expanded 10000 1))) 0 0)
     = Num (UTC_time (getUTCFullYear (Date_of_iso (Expanded 10000 1))) 0 0)"
    by (intro TimeClip_in_range) (simp add: DayFromYear_limits msPerDay_def)
qed

section \<open>Properties of the forecaster loop\<close>

lemma Day_add_days: "Day (t + k * msPerDay) = Day t + k"
  by (simp add: Day_def msPerDay_def)

lemma num2_simps [simp]:
  "num2 f (Num x) (Num y) = Num (f x y)" "num2 f NaN b = NaN" "num2 f a NaN = NaN"
  by (simp_all add: num2_def split: number.splits)

lemma foldl_num_plus:
  "foldl (num2 (+)) a vs =
     (case a of
        NaN \<Rightarrow> NaN
      | Num x \<Rightarrow> if NaN \<in> set vs then NaN
                 else Num (x + sum_list (map (\<lambda>v. case v of Num x \<Rightarrow> x | NaN \<Rightarrow> 0) vs)))"
  for a :: "real number"
proof (induction vs arbitrary: a)
  case Nil
  then show ?case by (cases a) simp_all
next
  case (Cons v vs)
  show ?case
    by (cases a; cases v) (simp_all add: Cons)
qed

lemma mean_num_spec: "mean_num vs = (if vs = [] then None else Some (spec_mean vs))"
  by (simp add: mean_num_def spec_mean_def foldl_num_plus)

lemma step_point_date [simp]: "date (step_point f wx hist tx) = tx"
  by (simp add: step_point_def split: option.splits)

lemma step_point_bounds:
  "val (step_point f wx hist tx) = Some (Num v) \<Longrightarrow> - 0.1 \<le> v \<and> v \<le> 1"
  by (auto simp: step_point_def Math_max_def Math_min_def split: option.splits number.splits)

lemma step_point_as_specified: "point_as_specified f wx hist (step_point f wx hist tx)"
  by (auto simp: point_as_specified_def step_point_def Math_max_def Math_min_def
      split: option.splits number.splits)

text \<open>One round from a valid \<open>Date\<close> whose next day is in range.\<close>

lemma forecast_step_effect:
  fixes t :: int and f :: "real number list \<Rightarrow> real number" and wx :: weather
    and hist :: "point list"
  assumes "\<bar>t + msPerDay\<bar> \<le> 8640000000000000"
  defines "p \<equiv> step_point f wx hist (iso_prefix (t + msPerDay))"
  shows "forecast_step f (tConst wx) (pConst wx) (Num t, hist, out) =
           Inr (Num (t + msPerDay), hist @ (if val p = None then [] else [p]), out @ [p])"
proof -
  define tx where "tx = iso_prefix (t + msPerDay)"
  define n where "n = length hist"
  define vs where "vs = present (map val (drop (n - 3) hist))"
  have d: "setUTCDate (Num t) (map_number (\<lambda>x. x + 1) (getUTCDate (Num t))) = Num (t + msPerDay)"
    using setUTCDate_next[of t 1] assms(1) by (simp add: TimeClip_def)
  have dd: "toISOString_date (Num (t + msPerDay)) = Inr tx"
    by (simp add: toISOString_date_def tx_def)
  have sl: "slice_last 3 hist = drop (n - 3) hist" by (simp add: slice_last_def n_def)
  have step: "forecast_step f (tConst wx) (pConst wx) (Num t, hist, out) =
     (case (if 1 \<le> n then val (hist ! (n - 1)) else None,
            if 2 \<le> n then val (hist ! (n - 2)) else None,
            mean_num vs) of
           (Some lag1, Some lag2, Some r3) \<Rightarrow>
             Inr (Num (t + msPerDay),
              hist @ [\<lparr>date = tx, val = Some (Math_max (- 0.1) (Math_min 1.0
                  (f [lag1, lag2, r3, Num (season_sin tx), Num (season_cos tx),
                      Num (tConst wx), Num (pConst wx)])))\<rparr>],
              out @ [\<lparr>date = tx, val = Some (Math_max (- 0.1) (Math_min 1.0
                  (f [lag1, lag2, r3, Num (season_sin tx), Num (season_cos tx),
                      Num (tConst wx), Num (pConst wx)])))\<rparr>])
         | _ \<Rightarrow> Inr (Num (t + msPerDay), hist, out @ [\<lparr>date = tx, val = None\<rparr>]))"
    unfolding forecast_step_def Let_def fst_conv snd_conv d dd sl vs_def n_def sum.case ..
  show ?thesis
  proof (cases "n < 2 \<or> val (hist ! (n - 1)) = None \<or> val (hist ! (n - 2)) = None \<or> vs = []")
    case True
    then have s: "spec_step_features wx hist tx = None"
      by (simp add: spec_step_features_def Let_def n_def[symmetric] vs_def[symmetric])
    then have p: "p = \<lparr>date = tx, val = None\<rparr>"
      by (simp add: p_def step_point_def tx_def)
    from True have "forecast_step f (tConst wx) (pConst wx) (Num t, hist, out)
         = Inr (Num (t + msPerDay), hist, out @ [\<lparr>date = tx, val = None\<rparr>])"
      unfolding step by (auto simp: mean_num_spec split: option.splits)
    then show ?thesis by (simp add: p)
  next
    case False
    then obtain a b where ab: "2 \<le> n" "val (hist ! (n - 1)) = Some a"
      "val (hist ! (n - 2)) = Some b" "vs \<noteq> []"
      by auto
    let ?f = "[a, b, spec_mean vs, Num (season_sin tx), Num (season_cos tx),
               Num (tConst wx), Num (pConst wx)]"
    have s: "spec_step_features wx hist tx = Some ?f"
      using False ab
      by (simp add: spec_step_features_def Let_def n_def[symmetric] vs_def[symmetric]
          season_sin_def season_cos_def)
    have p: "p = \<lparr>date = tx, val = Some (Math_max (- 0.1) (Math_min 1.0 (f ?f)))\<rparr>"
      by (simp add: p_def step_point_def tx_def[symmetric] s)
    have "forecast_step f (tConst wx) (pConst wx) (Num t, hist, out)
         = Inr (Num (t + msPerDay),
              hist @ [\<lparr>date = tx, val = Some (Math_max (- 0.1) (Math_min 1.0 (f ?f)))\<rparr>],
              out @ [\<lparr>date = tx, val = Some (Math_max (- 0.1) (Math_min 1.0 (f ?f)))\<rparr>])"
      unfolding step using ab by (simp add: mean_num_spec)
    then show ?thesis by (simp add: p)
  qed
qed

text \<open>
  The rounds of the loop from a valid \<open>Date\<close>, as long as the days stay in range: the
  points are those of the specification on the history as it has grown.
\<close>

lemma store_rounds:
  fixes t :: int and f :: "real number list \<Rightarrow> real number" and wx :: weather and h :: store
  assumes "a < length h" and "\<bar>t\<bar> + int (length xs) * msPerDay \<le> 8640000000000000"
  shows "\<exists>ps. fold (\<lambda>i st. case st of
                              Inl he \<Rightarrow> Inl he
                            | Inr s \<Rightarrow> store_step f (tConst wx) (pConst wx) a s)
                   xs (Inr (h, Num t, out))
             = Inr (h[a := h ! a @ filter (\<lambda>p. val p \<noteq> None) ps],
                    Num (t + int (length xs) * msPerDay), out @ ps)
           \<and> length ps = length xs
           \<and> (\<forall>k<length xs. ps ! k =
                 step_point f wx (h ! a @ filter (\<lambda>p. val p \<noteq> None) (take k ps))
                   (iso_prefix (t + (1 + int k) * msPerDay)))"
  using assms
proof (induction xs arbitrary: h t out)
  case Nil
  then show ?case by simp
next
  case (Cons x xs)
  let ?F = "\<lambda>i st. case st of
                      Inl he \<Rightarrow> Inl he
                    | Inr s \<Rightarrow> store_step f (tConst wx) (pConst wx) a s"
  have ms: "0 < msPerDay" by (simp add: msPerDay_def)
  have len: "0 \<le> int (length xs) * msPerDay" using ms by simp
  have r0: "\<bar>t\<bar> + msPerDay + int (length xs) * msPerDay \<le> 8640000000000000"
    using Cons.prems(2) by (simp add: algebra_simps)
  have r1: "\<bar>t + msPerDay\<bar> \<le> 8640000000000000" using r0 len ms by linarith
  have r2: "\<bar>t + msPerDay\<bar> + int (length xs) * msPerDay \<le> 8640000000000000"
    using r0 ms by linarith
  define p where "p = step_point f wx (h ! a) (iso_prefix (t + msPerDay))"
  define pp where "pp = (if val p = None then [] else [p])"
  define h' where "h' = h[a := h ! a @ pp]"
  have st: "store_step f (tConst wx) (pConst wx) a (h, Num t, out)
      = Inr (h', Num (t + msPerDay), out @ [p])"
    using forecast_step_effect[OF r1, of f wx "h ! a" out]
    by (simp add: store_step_def p_def pp_def h'_def)
  have a': "a < length h'" using Cons.prems(1) by (simp add: h'_def)
  have ha: "h' ! a = h ! a @ pp" using Cons.prems(1) by (simp add: h'_def)
  obtain ps where ps:
    "fold ?F xs (Inr (h', Num (t + msPerDay), out @ [p]))
       = Inr (h'[a := h' ! a @ filter (\<lambda>p. val p \<noteq> None) ps],
              Num (t + msPerDay + int (length xs) * msPerDay), (out @ [p]) @ ps)"
    "length ps = length xs"
    "\<forall>k<length xs. ps ! k =
         step_point f wx (h' ! a @ filter (\<lambda>p. val p \<noteq> None) (take k ps))
           (iso_prefix (t + msPerDay + (1 + int k) * msPerDay))"
    using Cons.IH[OF a' r2, of "out @ [p]"] by blast
  have fl: "filter (\<lambda>p. val p \<noteq> None) (p # qs) = pp @ filter (\<lambda>p. val p \<noteq> None) qs" for qs
    by (simp add: pp_def)
  show ?case
  proof (intro exI[of _ "p # ps"] conjI)
    have e: "t + msPerDay + int (length xs) * msPerDay = t + int (length (x # xs)) * msPerDay"
      by (simp add: algebra_simps)
    have u: "h'[a := h' ! a @ filter (\<lambda>p. val p \<noteq> None) ps]
        = h[a := h ! a @ filter (\<lambda>p. val p \<noteq> None) (p # ps)]"
      unfolding ha fl by (simp add: h'_def)
    show "fold ?F (x # xs) (Inr (h, Num t, out)) =
      Inr (h[a := h ! a @ filter (\<lambda>p. val p \<noteq> None) (p # ps)],
           Num (t + int (length (x # xs)) * msPerDay), out @ p # ps)"
      using ps(1) unfolding e u by (simp add: st)
    show "length (p # ps) = length (x # xs)" by (simp add: ps(2))
    show "\<forall>k<length (x # xs). (p # ps) ! k =
         step_point f wx (h ! a @ filter (\<lambda>p. val p \<noteq> None) (take k (p # ps)))
           (iso_prefix (t + (1 + int k) * msPerDay))"
    proof (intro allI impI)
      fix k assume k: "k < length (x # xs)"
      show "(p # ps) ! k =
         step_point f wx (h ! a @ filter (\<lambda>p. val p \<noteq> None) (take k (p # ps)))
           (iso_prefix (t + (1 + int k) * msPerDay))"
      proof (cases k)
        case 0
        then show ?thesis by (simp add: p_def)
      next
        case (Suc j)
        then have j: "j < length xs" using k by simp
        have tm: "t + msPerDay + (1 + int j) * msPerDay = t + (1 + int (Suc j)) * msPerDay"
          by (simp add: algebra_simps)
        have "ps ! j = step_point f wx (h' ! a @ filter (\<lambda>p. val p \<noteq> None) (take j ps))
           (iso_prefix (t + msPerDay + (1 + int j) * msPerDay))"
          using ps(3) j by simp
        then show ?thesis
          unfolding Suc tm ha by (simp add: pp_def)
      qed
    qed
  qed
qed

lemma forecast_result:
  assumes a: "viSeries < length h" and ne: "h ! viSeries \<noteq> []"
    and range: "\<bar>Date_of_iso (date (last (h ! viSeries)))\<bar> + 30 * msPerDay \<le> 8640000000000000"
  shows "\<exists>out. forecastNext30Days h viSeries wx m =
           (h @ [h ! viSeries @ filter (\<lambda>p. val p \<noteq> None) out], Inr out)
        \<and> length out = 30
        \<and> (\<forall>k<30. out ! k =
              step_point (infer m) wx (h ! viSeries @ filter (\<lambda>p. val p \<noteq> None) (take k out))
                (iso_prefix (Date_of_iso (date (last (h ! viSeries))) + (1 + int k) * msPerDay)))"
proof -
  let ?vi = "h ! viSeries"
  let ?h1 = "h @ [?vi]"
  let ?t = "Date_of_iso (date (last ?vi))"
  define xs where "xs = [1..<31::nat]"
  have len: "length xs = 30" by (simp add: xs_def)
  have h1: "?h1 ! length h = ?vi" by simp
  have ms: "0 < msPerDay" by (simp add: msPerDay_def)
  have tc: "TimeClip ?t = Num ?t"
    using range ms by (intro TimeClip_in_range) linarith
  have r: "\<bar>?t\<bar> + int (length xs) * msPerDay \<le> 8640000000000000"
    using range by (simp add: len)
  have al: "length h < length ?h1" by simp
  obtain ps where ps:
    "fold (\<lambda>i st. case st of
                     Inl he \<Rightarrow> Inl he
                   | Inr s \<Rightarrow> store_step (infer m) (tConst wx) (pConst wx) (length h) s)
          xs (Inr (?h1, Num ?t, []))
       = Inr (?h1[length h := ?h1 ! length h @ filter (\<lambda>p. val p \<noteq> None) ps],
              Num (?t + int (length xs) * msPerDay), [] @ ps)"
    "length ps = length xs"
    "\<forall>k<length xs. ps ! k =
         step_point (infer m) wx (?h1 ! length h @ filter (\<lambda>p. val p \<noteq> None) (take k ps))
           (iso_prefix (?t + (1 + int k) * msPerDay))"
    using store_rounds[OF al r, of "infer m" wx "[]"] by blast
  have res: "forecastNext30Days h viSeries wx m =
      (h @ [?vi @ filter (\<lambda>p. val p \<noteq> None) ps], Inr ps)"
    unfolding forecastNext30Days_def Let_def h1 tc xs_def[symmetric] ps(1) using ne by simp
  show ?thesis
    using res ps(2,3) unfolding len h1 by (intro exI[of _ ps]) simp
qed

text \<open>Whatever the call does, it leaves the arrays that existed and adds one.\<close>

lemma store_rounds_frame:
  fixes st :: "store \<times> error + store \<times> time_value number \<times> point list"
  assumes "(case st of Inl he \<Rightarrow> fst he | Inr s \<Rightarrow> fst s) = H[a := x]"
  shows "\<exists>y. (case fold (\<lambda>i st. case st of
                                   Inl he \<Rightarrow> Inl he
                                 | Inr s \<Rightarrow> store_step f tC pC a s) xs st of
                Inl he \<Rightarrow> fst he | Inr s \<Rightarrow> fst s) = H[a := y]"
  using assms
proof (induction xs arbitrary: st x)
  case Nil
  then show ?case by auto
next
  case (Cons i xs)
  show ?case
  proof (cases st)
    case (Inl he)
    then show ?thesis using Cons.IH[of st x] Cons.prems by simp
  next
    case (Inr s)
    obtain h d out where s: "s = (h, d, out)" by (cases s) auto
    have h: "h = H[a := x]" using Cons.prems Inr s by simp
    show ?thesis
    proof (cases "forecast_step f tC pC (d, h ! a, out)")
      case (Inl e)
      then have "store_step f tC pC a s = Inl (h, e)" by (simp add: store_step_def s)
      then show ?thesis
        using Cons.IH[of "Inl (h, e)" x] h Inr by simp
    next
      case r: (Inr r)
      then have "store_step f tC pC a s = Inr (h[a := fst (snd r)], fst r, snd (snd r))"
        by (simp add: store_step_def s)
      then show ?thesis
        using Cons.IH[of "Inr (h[a := fst (snd r)], fst r, snd (snd r))" "fst (snd r)"] h Inr
        by simp
    qed
  qed
qed

lemma forecast_frame:
  assumes "a < length h"
  shows "\<exists>x. fst (forecastNext30Days h a wx m) = h @ [x]"
proof (cases "h ! a = []")
  case True
  then show ?thesis by (simp add: forecastNext30Days_def Let_def)
next
  case False
  let ?H = "h @ [h ! a]"
  let ?st = "Inr (?H, TimeClip (Date_of_iso (date (last (h ! a)))), []) ::
     store \<times> error + store \<times> time_value number \<times> point list"
  have "(case ?st of Inl he \<Rightarrow> fst he | Inr s \<Rightarrow> fst s) = ?H[length h := h ! a]" by simp
  from store_rounds_frame[OF this, of "infer m" "tConst wx" "pConst wx" "[1..<31]"]
  obtain y where y: "(case fold (\<lambda>i st. case st of
                                   Inl he \<Rightarrow> Inl he
                                 | Inr s \<Rightarrow> store_step (infer m) (tConst wx) (pConst wx) (length h) s)
                         [1..<31] ?st of
                Inl he \<Rightarrow> fst he | Inr s \<Rightarrow> fst s) = ?H[length h := y]"
    by blast
  have "fst (forecastNext30Days h a wx m) = ?H[length h := y]"
    using False y by (auto simp: forecastNext30Days_def Let_def split: sum.splits)
  then show ?thesis by simp
qed

text \<open>On the history of a run the forecaster returns.\<close>

lemma run_forecast_returns:
  assumes "vi \<noteq> []"
  shows "\<exists>out. snd (forecastNext30Days [map as_point vi] 0 wx m) = Inr out"
proof -
  let ?h = "[map as_point vi]"
  have a: "(0::nat) < length ?h" by simp
  have b: "?h ! 0 \<noteq> []" using assms by simp
  have "last (map as_point vi) = as_point (last vi)" using assms by (simp add: last_map)
  then have t: "Date_of_iso (date (last (?h ! 0))) = day_number (date (last vi)) * msPerDay"
    by (simp add: as_point_def Date_of_iso_def MakeDate_def)
  have "- 719528 \<le> day_number (date (last vi))" "day_number (date (last vi)) < 2932897"
    using day_number_range[of "date (last vi)"] by (simp_all add: DayFromYear_limits)
  then have r: "\<bar>Date_of_iso (date (last (?h ! 0)))\<bar> + 30 * msPerDay \<le> 8640000000000000"
    unfolding t by (simp add: msPerDay_def)
  from forecast_result[OF a b r, of wx m] show ?thesis by auto
qed

lemma buildDataset_Nil: "buildDataset [] wx = ([], [])"
  by (simp add: buildDataset_def)

lemma col_sd_nonzero: "col_sd col \<noteq> 0"
  by (simp add: col_sd_def Let_def)

section \<open>Properties of the feature builder\<close>

lemma foldl_plus_sum: "foldl (+) a xs = a + sum_list xs" for a :: real
  by (induction xs arbitrary: a) simp_all

lemma byDate_nth:
  assumes "distinct (map date obs)" "j < length obs"
  shows "byDate obs (date (obs ! j)) = val (obs ! j)"
proof -
  let ?kv = "map (\<lambda>v. (date v, val v)) obs"
  have "map fst (rev ?kv) = rev (map date obs)" by (simp add: rev_map comp_def)
  then have d: "distinct (map fst (rev ?kv))" using assms(1) by simp
  have "(date (obs ! j), val (obs ! j)) \<in> set (rev ?kv)" using assms(2) by force
  then have "map_of (rev ?kv) (date (obs ! j)) = Some (val (obs ! j))"
    using d by (simp only: map_of_eq_Some_iff)
  then show ?thesis by (simp add: byDate_def)
qed

lemma slice_window:
  assumes "i < length obs"
  shows "slice (i - 2) (i + 1) obs = map (\<lambda>k. obs ! k) [i - 2..<i + 1]"
  using assms by (auto simp: list_eq_iff_nth_eq slice_def simp del: upt_Suc)

lemma roll_spec:
  assumes "2 \<le> i" "i < length obs"
  shows "roll obs i 3 = spec_rolling_mean obs i"
proof -
  have s: "nat (max 0 (int i - int (3::nat) + 1)) = i - 2" using assms(1) by simp
  show ?thesis
    unfolding roll_def spec_rolling_mean_def Let_def s slice_window[OF assms(2)]
    by (simp add: mean_opt_def foldl_plus_sum comp_def del: upt_Suc)
qed


lemma sample_at_spec:
  assumes d: "distinct (map date obs)" and i: "2 \<le> i" "i < length obs"
  shows "case sample_at obs wx i of
           None \<Rightarrow> val (obs ! i) = None \<or> None \<in> set (spec_features obs wx i)
         | Some fv \<Rightarrow> map Some (fst fv) = spec_features obs wx i \<and> Some (snd fv) = val (obs ! i)"
proof -
  have di: "map date obs ! i = date (obs ! i)"
    "map date obs ! (i - 1) = date (obs ! (i - 1))"
    "map date obs ! (i - 2) = date (obs ! (i - 2))"
    using i by simp_all
  have b0: "byDate obs (date (obs ! i)) = val (obs ! i)"
    using byDate_nth[OF d, of i] i by simp
  have b1: "byDate obs (date (obs ! (i - 1))) = val (obs ! (i - 1))"
    using byDate_nth[OF d, of "i - 1"] i by simp
  have b2: "byDate obs (date (obs ! (i - 2))) = val (obs ! (i - 2))"
    using byDate_nth[OF d, of "i - 2"] i by simp
  show ?thesis
    unfolding sample_at_def Let_def di b0 b1 b2 roll_spec[OF i]
    by (auto simp: spec_features_def season_sin_def season_cos_def split: option.splits)
qed

lemma buildDataset_fold:
  "fold (\<lambda>i xy. case f i of None \<Rightarrow> xy | Some fv \<Rightarrow> (fst xy @ [fst fv], snd xy @ [snd fv])) is (x, y)
     = (x @ map fst (List.map_filter f is), y @ map snd (List.map_filter f is))"
  by (induction "is" arbitrary: x y) (auto split: option.splits)

lemma buildDataset_samples:
  "buildDataset obs wx =
     (map fst (List.map_filter (sample_at obs wx) [2..<length obs]),
      map snd (List.map_filter (sample_at obs wx) [2..<length obs]))"
  unfolding buildDataset_def using buildDataset_fold[of "sample_at obs wx" _ "[]" "[]"] by simp





lemma present_mem: "Some y \<in> set xs \<Longrightarrow> y \<in> set (present xs)"
  unfolding present_def by (induction xs) (auto split: option.splits)

lemma buildDataset_complete:
  assumes d: "distinct (map date obs)"
    and v: "\<forall>ob\<in>set obs. val ob \<noteq> None"
    and w: "\<forall>ob\<in>set obs. tMean (wx_at wx (date ob)) \<noteq> None \<and> pSum (wx_at wx (date ob)) \<noteq> None"
  shows "length (fst (buildDataset obs wx)) = length obs - 2"
proof -
  have some: "sample_at obs wx i \<noteq> None" if i: "2 \<le> i" "i < length obs" for i
  proof
    assume n: "sample_at obs wx i = None"
    have mem: "obs ! i \<in> set obs" "obs ! (i - 1) \<in> set obs" "obs ! (i - 2) \<in> set obs"
      using i by simp_all
    have "val (obs ! i) \<in> set (map (\<lambda>k. val (obs ! k)) [i - 2..<i + 1])" using i by simp
    moreover obtain y where y: "val (obs ! i) = Some y" using v mem(1) by auto
    ultimately have "y \<in> set (present (map (\<lambda>k. val (obs ! k)) [i - 2..<i + 1]))"
      by (intro present_mem) (simp del: upt_Suc)
    then have r: "spec_rolling_mean obs i \<noteq> None"
      by (auto simp: spec_rolling_mean_def Let_def simp del: upt_Suc)
    from sample_at_spec[OF d i, of wx] n
    have "val (obs ! i) = None \<or> None \<in> set (spec_features obs wx i)" by simp
    then show False
      using v w mem r y by (auto simp: spec_features_def)
  qed
  have "List.map_filter (sample_at obs wx) [2..<length obs]
      = map (\<lambda>i. the (sample_at obs wx i)) [2..<length obs]"
  proof -
    have "filter (\<lambda>x. sample_at obs wx x \<noteq> None) [2..<length obs] = [2..<length obs]"
      using some by (simp add: filter_id_conv)
    then show ?thesis by (simp add: List.map_filter_def comp_def)
  qed
  then show ?thesis by (simp add: buildDataset_samples)
qed

lemma map_of_const_map:
  "k \<in> set ks \<Longrightarrow> map_of (map (\<lambda>k. (f k, e)) ks) (f k) = Some e"
  by (induction ks) auto

section \<open>Properties of the Gauss-Jordan inversion\<close>

lemma squareD: "square n A \<Longrightarrow> r < n \<Longrightarrow> length (A ! r) = n"
  and squareL: "square n A \<Longrightarrow> length A = n"
  by (auto simp: square_def list_all_length)

lemma squareI: "length A = n \<Longrightarrow> (\<And>r. r < n \<Longrightarrow> length (A ! r) = n) \<Longrightarrow> square n A"
  by (auto simp: square_def list_all_length)

lemma pivot_fold:
  fixes A :: matrix
  assumes "i \<le> p" "p < a" "a \<le> b"
    and "\<forall>r. i \<le> r \<and> r < a \<longrightarrow> \<bar>A ! r ! i\<bar> \<le> \<bar>A ! p ! i\<bar>"
  shows "i \<le> fold (\<lambda>r p. if \<bar>A ! r ! i\<bar> > \<bar>A ! p ! i\<bar> then r else p) [a..<b] p
       \<and> fold (\<lambda>r p. if \<bar>A ! r ! i\<bar> > \<bar>A ! p ! i\<bar> then r else p) [a..<b] p < b
       \<and> (\<forall>r. i \<le> r \<and> r < b \<longrightarrow>
            \<bar>A ! r ! i\<bar> \<le> \<bar>A ! fold (\<lambda>r p. if \<bar>A ! r ! i\<bar> > \<bar>A ! p ! i\<bar> then r else p) [a..<b] p ! i\<bar>)"
  using assms(3)
proof (induction b rule: dec_induct)
  case base
  then show ?case using assms(1,2,4) by simp
next
  case (step b)
  let ?q = "fold (\<lambda>r p. if \<bar>A ! r ! i\<bar> > \<bar>A ! p ! i\<bar> then r else p) [a..<b] p"
  from step have q: "i \<le> ?q" "?q < b" "\<forall>r. i \<le> r \<and> r < b \<longrightarrow> \<bar>A ! r ! i\<bar> \<le> \<bar>A ! ?q ! i\<bar>"
    by auto
  have f: "fold (\<lambda>r p. if \<bar>A ! r ! i\<bar> > \<bar>A ! p ! i\<bar> then r else p) [a..<Suc b] p
      = (if \<bar>A ! b ! i\<bar> > \<bar>A ! ?q ! i\<bar> then b else ?q)"
    using step(1) by simp
  have ib: "i \<le> b" using step(1) assms(1,2) by simp
  show ?case
  proof (cases "\<bar>A ! b ! i\<bar> > \<bar>A ! ?q ! i\<bar>")
    case True
    have "\<bar>A ! r ! i\<bar> \<le> \<bar>A ! b ! i\<bar>" if "i \<le> r" "r < Suc b" for r
    proof (cases "r = b")
      case False
      then have "r < b" using that by simp
      then have "\<bar>A ! r ! i\<bar> \<le> \<bar>A ! ?q ! i\<bar>" using q(3) that(1) by blast
      then show ?thesis using True by linarith
    qed simp
    then show ?thesis unfolding f using True ib by simp
  next
    case False
    have "\<bar>A ! r ! i\<bar> \<le> \<bar>A ! ?q ! i\<bar>" if "i \<le> r" "r < Suc b" for r
    proof (cases "r = b")
      case True
      then show ?thesis using False by simp
    next
      case False
      then have "r < b" using that by simp
      then show ?thesis using q(3) that(1) by blast
    qed
    then show ?thesis unfolding f using False q(1,2) by simp
  qed
qed

lemma pivot_row_props:
  fixes A :: matrix
  assumes "i < n"
  shows "i \<le> pivot_row A i n" "pivot_row A i n < n"
    "\<forall>r. i \<le> r \<and> r < n \<longrightarrow> \<bar>A ! r ! i\<bar> \<le> \<bar>A ! pivot_row A i n ! i\<bar>"
proof -
  have 1: "i \<le> i" "i < i + 1" "i + 1 \<le> n" using assms by simp_all
  have 2: "\<forall>r. i \<le> r \<and> r < i + 1 \<longrightarrow> \<bar>A ! r ! i\<bar> \<le> \<bar>A ! i ! i\<bar>"
  proof (intro allI impI)
    fix r assume "i \<le> r \<and> r < i + 1"
    then have "r = i" by simp
    then show "\<bar>A ! r ! i\<bar> \<le> \<bar>A ! i ! i\<bar>" by simp
  qed
  from pivot_fold[OF 1 2]
  show "i \<le> pivot_row A i n" "pivot_row A i n < n"
    "\<forall>r. i \<le> r \<and> r < n \<longrightarrow> \<bar>A ! r ! i\<bar> \<le> \<bar>A ! pivot_row A i n ! i\<bar>"
    unfolding pivot_row_def by blast+
qed

lemma swap_rows_nth:
  assumes "i < length A" "p < length A" "r < length A"
  shows "swap_rows i p A ! r = A ! (if r = p then i else if r = i then p else r)"
  using assms by (auto simp: swap_rows_def nth_list_update)

lemma swap_rows_length [simp]: "length (swap_rows i p A) = length A"
  by (simp add: swap_rows_def)


lemma scale_row_nth: "k < length v \<Longrightarrow> scale_row c v ! k = v ! k * c"
  by (simp add: scale_row_def)

lemma scale_row_length [simp]: "length (scale_row c v) = length v"
  by (simp add: scale_row_def)

lemma sub_row_nth:
  "k < length u \<Longrightarrow> k < length v \<Longrightarrow> sub_row f u v ! k = u ! k - f * v ! k"
  by (simp add: sub_row_def)

lemma sub_row_length [simp]: "length (sub_row f u v) = min (length u) (length v)"
  by (simp add: sub_row_def)

lemma gj_step_fails:
  "gj_step n i (A, I) = Inl e \<longleftrightarrow>
     e = Error ''Singular matrix'' \<and> \<bar>A ! pivot_row A i n ! i\<bar> < 1 / 10 ^ 8"
  by (auto simp: gj_step_def Let_def)

lemma gj_step_entries:
  assumes sq: "square n A" "square n I" and i: "i < n"
    and ok: "gj_step n i (A, I) = Inr (A', I')"
  defines "p \<equiv> pivot_row A i n"
  defines "\<sigma> \<equiv> \<lambda>r. if r = p then i else if r = i then p else r"
  defines "c \<equiv> 1 / (A ! p ! i)"
  shows "square n A'" "square n I'" "A ! p ! i \<noteq> 0"
    "\<And>k. k < n \<Longrightarrow> A' ! i ! k = A ! p ! k * c"
    "\<And>k. k < n \<Longrightarrow> I' ! i ! k = I ! p ! k * c"
    "\<And>r k. r < n \<Longrightarrow> r \<noteq> i \<Longrightarrow> k < n \<Longrightarrow>
        A' ! r ! k = A ! \<sigma> r ! k - A ! \<sigma> r ! i * (A ! p ! k * c)"
    "\<And>r k. r < n \<Longrightarrow> r \<noteq> i \<Longrightarrow> k < n \<Longrightarrow>
        I' ! r ! k = I ! \<sigma> r ! k - A ! \<sigma> r ! i * (I ! p ! k * c)"
proof -
  have p: "i \<le> p" "p < n" using pivot_row_props[OF i, of A] by (simp_all add: p_def)
  have lA: "length A = n" "length I = n" using sq by (simp_all add: squareL)
  define S where "S = swap_rows i p A"
  define T where "T = swap_rows i p I"
  have Sr: "S ! r = A ! \<sigma> r" if "r < n" for r
    using that i p lA by (simp add: S_def swap_rows_nth \<sigma>_def)
  have Tr: "T ! r = I ! \<sigma> r" if "r < n" for r
    using that i p lA by (simp add: T_def swap_rows_nth \<sigma>_def)
  have \<sigma>n: "\<sigma> r < n" if "r < n" for r using that i p by (simp add: \<sigma>_def)
  have \<sigma>i: "\<sigma> i = p" by (simp add: \<sigma>_def)
  have lS: "length S = n" "length T = n" by (simp_all add: S_def T_def lA)
  have lSr: "length (S ! r) = n" "length (T ! r) = n" if "r < n" for r
    using that sq \<sigma>n[OF that] by (simp_all add: Sr Tr squareD)
  have Sii: "S ! i ! i = A ! p ! i" using i by (simp add: Sr \<sigma>i)
  have nofail: "\<not> \<bar>A ! p ! i\<bar> < 1 / 10 ^ 8"
    using ok by (auto simp: gj_step_def Let_def p_def split: if_splits)
  then show nz: "A ! p ! i \<noteq> 0" by auto
  have c': "1 / (S ! i ! i) = c" by (simp add: Sii c_def)
  define A2 where "A2 = S[i := scale_row c (S ! i)]"
  define I2 where "I2 = T[i := scale_row c (T ! i)]"
  have res: "A' = map (\<lambda>r. if r = i then A2 ! r else sub_row (A2 ! r ! i) (A2 ! r) (A2 ! i)) [0..<n]"
    "I' = map (\<lambda>r. if r = i then I2 ! r else sub_row (A2 ! r ! i) (I2 ! r) (I2 ! i)) [0..<n]"
    using ok nofail c'
    by (auto simp: gj_step_def Let_def p_def[symmetric] S_def[symmetric] T_def[symmetric]
        A2_def I2_def)
  have A2i: "A2 ! i = scale_row c (A ! p)" "I2 ! i = scale_row c (I ! p)"
    using i lS by (simp_all add: A2_def I2_def Sr Tr \<sigma>i)
  have A2r: "A2 ! r = A ! \<sigma> r" "I2 ! r = I ! \<sigma> r" if "r < n" "r \<noteq> i" for r
    using that by (simp_all add: A2_def I2_def Sr Tr)
  have lp: "length (A ! p) = n" "length (I ! p) = n" using sq p by (simp_all add: squareD)
  have l\<sigma>: "length (A ! \<sigma> r) = n" "length (I ! \<sigma> r) = n" if "r < n" for r
    using sq \<sigma>n[OF that] by (simp_all add: squareD)
  have rowA: "A' ! r = (if r = i then scale_row c (A ! p)
       else sub_row (A ! \<sigma> r ! i) (A ! \<sigma> r) (scale_row c (A ! p)))" if "r < n" for r
    using that by (simp add: res A2i A2r)
  have rowI: "I' ! r = (if r = i then scale_row c (I ! p)
       else sub_row (A ! \<sigma> r ! i) (I ! \<sigma> r) (scale_row c (I ! p)))" if "r < n" for r
    using that by (simp add: res A2i A2r)
  show "square n A'"
  proof (rule squareI)
    show "length A' = n" by (simp add: res(1))
    show "length (A' ! r) = n" if "r < n" for r using that by (simp add: rowA lp l\<sigma>)
  qed
  show "square n I'"
  proof (rule squareI)
    show "length I' = n" by (simp add: res(2))
    show "length (I' ! r) = n" if "r < n" for r using that by (simp add: rowI lp l\<sigma>)
  qed
  show "A' ! i ! k = A ! p ! k * c" if "k < n" for k
    using that i by (simp add: rowA scale_row_nth lp)
  show "I' ! i ! k = I ! p ! k * c" if "k < n" for k
    using that i by (simp add: rowI scale_row_nth lp)
  show "A' ! r ! k = A ! \<sigma> r ! k - A ! \<sigma> r ! i * (A ! p ! k * c)"
    if "r < n" "r \<noteq> i" "k < n" for r k
    using that by (simp add: rowA sub_row_nth scale_row_nth lp l\<sigma>)
  show "I' ! r ! k = I ! \<sigma> r ! k - A ! \<sigma> r ! i * (I ! p ! k * c)"
    if "r < n" "r \<noteq> i" "k < n" for r k
    using that by (simp add: rowI sub_row_nth scale_row_nth lp l\<sigma>)
qed


lemma gj_step_eliminates:
  assumes sq: "square n A" "square n I" and i: "i < n"
    and ok: "gj_step n i (A, I) = Inr (A', I')"
  shows "(\<forall>k<n. A' ! i ! k = A ! pivot_row A i n ! k * (1 / (A ! pivot_row A i n ! i))
              \<and> I' ! i ! k = I ! pivot_row A i n ! k * (1 / (A ! pivot_row A i n ! i)))
       \<and> (\<forall>r<n. r \<noteq> i \<longrightarrow> (\<forall>k<n.
              A' ! r ! k = A ! swapped i (pivot_row A i n) r ! k
                             - A ! swapped i (pivot_row A i n) r ! i * A' ! i ! k
            \<and> I' ! r ! k = I ! swapped i (pivot_row A i n) r ! k
                             - A ! swapped i (pivot_row A i n) r ! i * I' ! i ! k))"
proof -
  note e = gj_step_entries[OF sq i ok]
  have 1: "A' ! i ! k = A ! pivot_row A i n ! k * (1 / (A ! pivot_row A i n ! i))" if "k < n" for k
    using e(4)[OF that] .
  have 2: "I' ! i ! k = I ! pivot_row A i n ! k * (1 / (A ! pivot_row A i n ! i))" if "k < n" for k
    using e(5)[OF that] .
  have 3: "A' ! r ! k = A ! swapped i (pivot_row A i n) r ! k
                             - A ! swapped i (pivot_row A i n) r ! i * A' ! i ! k"
    if "r < n" "r \<noteq> i" "k < n" for r k
    using e(6)[OF that] 1[OF that(3)] by (simp add: swapped_def)
  have 4: "I' ! r ! k = I ! swapped i (pivot_row A i n) r ! k
                             - A ! swapped i (pivot_row A i n) r ! i * I' ! i ! k"
    if "r < n" "r \<noteq> i" "k < n" for r k
    using e(7)[OF that] 2[OF that(3)] by (simp add: swapped_def)
  show ?thesis using 1 2 3 4 by blast
qed

lemma gj_step_inv:
  assumes sq: "square n A" "square n I" and i: "i < n"
    and ok: "gj_step n i (A, I) = Inr (A', I')"
    and lin: "\<And>r c. r < n \<Longrightarrow> c < n \<Longrightarrow> A ! r ! c = (\<Sum>k<n. I ! r ! k * M ! k ! c)"
    and unit: "\<And>r c. r < n \<Longrightarrow> c < i \<Longrightarrow> A ! r ! c = (if r = c then 1 else 0)"
  shows "\<And>r c. r < n \<Longrightarrow> c < n \<Longrightarrow> A' ! r ! c = (\<Sum>k<n. I' ! r ! k * M ! k ! c)"
    and "\<And>r c. r < n \<Longrightarrow> c < Suc i \<Longrightarrow> A' ! r ! c = (if r = c then 1 else 0)"
proof -
  define p where "p = pivot_row A i n"
  define \<sigma> where "\<sigma> = (\<lambda>r. if r = p then i else if r = i then p else r)"
  define cc where "cc = 1 / (A ! p ! i)"
  have e3: "A ! p ! i \<noteq> 0"
    using gj_step_entries(3)[OF sq i ok] by (simp add: p_def)
  have e4: "A' ! i ! k = A ! p ! k * cc" if "k < n" for k
    using gj_step_entries(4)[OF sq i ok that] by (simp add: p_def cc_def)
  have e5: "I' ! i ! k = I ! p ! k * cc" if "k < n" for k
    using gj_step_entries(5)[OF sq i ok that] by (simp add: p_def cc_def)
  have e6: "A' ! r ! k = A ! \<sigma> r ! k - A ! \<sigma> r ! i * (A ! p ! k * cc)"
    if "r < n" "r \<noteq> i" "k < n" for r k
    using gj_step_entries(6)[OF sq i ok that] by (simp add: p_def cc_def \<sigma>_def)
  have e7: "I' ! r ! k = I ! \<sigma> r ! k - A ! \<sigma> r ! i * (I ! p ! k * cc)"
    if "r < n" "r \<noteq> i" "k < n" for r k
    using gj_step_entries(7)[OF sq i ok that] by (simp add: p_def cc_def \<sigma>_def)
  have p: "i \<le> p" "p < n" using pivot_row_props[OF i, of A] by (simp_all add: p_def)
  have \<sigma>n: "\<sigma> r < n" if "r < n" for r using that i p by (simp add: \<sigma>_def)
  have nz: "A ! p ! i \<noteq> 0" by (rule e3)
  show "A' ! r ! c = (\<Sum>k<n. I' ! r ! k * M ! k ! c)" if r: "r < n" and c: "c < n" for r c
  proof (cases "r = i")
    case True
    have "(\<Sum>k<n. I' ! i ! k * M ! k ! c) = (\<Sum>k<n. (I ! p ! k * M ! k ! c) * cc)"
      by (intro sum.cong refl) (simp add: e5)
    also have "\<dots> = (\<Sum>k<n. I ! p ! k * M ! k ! c) * cc"
      by (simp add: sum_distrib_right)
    also have "\<dots> = A' ! i ! c" using c p by (simp add: e4 lin)
    finally show ?thesis using True by simp
  next
    case False
    let ?f = "A ! \<sigma> r ! i"
    have "(\<Sum>k<n. I' ! r ! k * M ! k ! c)
        = (\<Sum>k<n. I ! \<sigma> r ! k * M ! k ! c - ?f * cc * (I ! p ! k * M ! k ! c))"
      using r False by (intro sum.cong refl) (simp add: e7 algebra_simps)
    also have "\<dots> = (\<Sum>k<n. I ! \<sigma> r ! k * M ! k ! c) - ?f * cc * (\<Sum>k<n. I ! p ! k * M ! k ! c)"
      by (simp add: sum_subtractf sum_distrib_left)
    also have "\<dots> = A ! \<sigma> r ! c - ?f * cc * A ! p ! c"
      using c p \<sigma>n[OF r] by (simp add: lin)
    also have "\<dots> = A' ! r ! c" using r c False by (simp add: e6)
    finally show ?thesis by simp
  qed
  show "A' ! r ! c = (if r = c then 1 else 0)" if r: "r < n" and c: "c < Suc i" for r c
  proof (cases "c = i")
    case True
    show ?thesis
    proof (cases "r = i")
      case True
      then show ?thesis using \<open>c = i\<close> i nz by (simp add: e4 cc_def)
    next
      case False
      then show ?thesis using \<open>c = i\<close> i r nz by (simp add: e6 cc_def)
    qed
  next
    case False
    then have ci: "c < i" using c by simp
    then have cn: "c < n" using i by simp
    have pc: "A ! p ! c = 0" using unit[OF p(2) ci] p(1) ci by simp
    show ?thesis
    proof (cases "r = i")
      case True
      then show ?thesis using ci cn by (simp add: e4 pc)
    next
      case False
      have "A ! \<sigma> r ! c = (if r = c then 1 else 0)"
        using unit[OF \<sigma>n[OF r] ci] r ci p(1) False by (auto simp: \<sigma>_def)
      then show ?thesis using False r cn by (simp add: e6 pc)
    qed
  qed
qed

lemma gj_rounds_Suc:
  "gj_rounds n (Suc k) AI =
     (case gj_rounds n k AI of Inl e \<Rightarrow> Inl e | Inr AI' \<Rightarrow> gj_step n k AI')"
  by (simp add: gj_rounds_def)

lemma gj_rounds_0 [simp]: "gj_rounds n 0 AI = Inr AI"
  by (simp add: gj_rounds_def)

lemma gj_rounds_inv:
  assumes sq: "square n A0" "square n I0"
    and lin: "\<And>r c. r < n \<Longrightarrow> c < n \<Longrightarrow> A0 ! r ! c = (\<Sum>k<n. I0 ! r ! k * M ! k ! c)"
    and k: "k \<le> n" and ok: "gj_rounds n k (A0, I0) = Inr (A, I)"
  shows "square n A \<and> square n I
       \<and> (\<forall>r<n. \<forall>c<n. A ! r ! c = (\<Sum>k<n. I ! r ! k * M ! k ! c))
       \<and> (\<forall>r<n. \<forall>c<k. A ! r ! c = (if r = c then 1 else 0))"
  using k ok
proof (induction k arbitrary: A I)
  case 0
  then show ?case using sq lin by simp
next
  case (Suc k)
  from Suc.prems(2) obtain A1 I1 where
    1: "gj_rounds n k (A0, I0) = Inr (A1, I1)" and 2: "gj_step n k (A1, I1) = Inr (A, I)"
    by (auto simp: gj_rounds_Suc split: sum.splits)
  from Suc.IH[OF _ 1] Suc.prems(1)
  have ih: "square n A1" "square n I1"
    "\<And>r c. r < n \<Longrightarrow> c < n \<Longrightarrow> A1 ! r ! c = (\<Sum>k<n. I1 ! r ! k * M ! k ! c)"
    "\<And>r c. r < n \<Longrightarrow> c < k \<Longrightarrow> A1 ! r ! c = (if r = c then 1 else 0)"
    by auto
  have kn: "k < n" using Suc.prems(1) by simp
  from gj_step_entries(1,2)[OF ih(1,2) kn 2] gj_step_inv[OF ih(1,2) kn 2 ih(3,4)]
  show ?case by blast
qed

lemma foldl_sum_upt:
  fixes f :: "nat \<Rightarrow> real"
  shows "foldl (\<lambda>s k. s + f k) a [0..<m] = a + (\<Sum>k<m. f k)"
  by (induction m) (simp_all add: algebra_simps)

lemma matMul_nth:
  assumes "r < length A" "j < length (hd B)"
  shows "matMul A B ! r ! j = (\<Sum>k<length (A ! r). A ! r ! k * B ! k ! j)"
  using assms by (simp add: matMul_def foldl_sum_upt)

lemma matMul_length: "length (matMul A B) = length A"
  "r < length A \<Longrightarrow> length (matMul A B ! r) = length (hd B)"
  by (simp_all add: matMul_def)

lemma matVec_nth:
  assumes "r < length A"
  shows "matVec A v ! r = (\<Sum>j<length (A ! r). A ! r ! j * v ! j)"
  using assms by (simp add: matVec_def foldl_sum_upt)

lemma matVec_length [simp]: "length (matVec A v) = length A"
  by (simp add: matVec_def)

lemma transposeM_nth:
  "i < length (hd A) \<Longrightarrow> k < length A \<Longrightarrow> transposeM A ! i ! k = A ! k ! i"
  "i < length (hd A) \<Longrightarrow> length (transposeM A ! i) = length A"
  "length (transposeM A) = length (hd A)"
  by (simp_all add: transposeM_def)

lemma identity_nth:
  "r < n \<Longrightarrow> c < n \<Longrightarrow> identity n ! r ! c = (if r = c then 1 else 0)"
  by (simp add: identity_def)

lemma identity_square: "square n (identity n)"
  by (rule squareI) (simp_all add: identity_def)

lemma hd_square: "square n M \<Longrightarrow> 0 < n \<Longrightarrow> length (hd M) = n"
  using squareD[of n M 0] squareL[of n M] by (cases M) auto

lemma invSym_rounds:
  "invSym M = (case gj_rounds (length M) (length M) (M, identity (length M)) of
                 Inl e \<Rightarrow> Inl e | Inr AI \<Rightarrow> Inr (snd AI))"
  by (simp add: invSym_def Let_def)

lemma invSym_inverse:
  assumes sq: "square n M" and ok: "invSym M = Inr W"
  shows "square n W"
    and "\<And>r c. r < n \<Longrightarrow> c < n \<Longrightarrow> (\<Sum>k<n. W ! r ! k * M ! k ! c) = (if r = c then 1 else 0)"
    and "matMul W M = identity n"
proof -
  have n: "length M = n" using sq by (rule squareL)
  from ok obtain A where r: "gj_rounds n n (M, identity n) = Inr (A, W)"
    by (auto simp: invSym_rounds n split: sum.splits)
  have lin0: "M ! r ! c = (\<Sum>k<n. identity n ! r ! k * M ! k ! c)" if "r < n" "c < n" for r c
  proof -
    have "(\<Sum>k<n. identity n ! r ! k * M ! k ! c) = (\<Sum>k<n. if r = k then M ! k ! c else 0)"
      using that by (intro sum.cong refl) (simp add: identity_nth)
    also have "\<dots> = M ! r ! c" using that by simp
    finally show ?thesis by simp
  qed
  from gj_rounds_inv[OF sq identity_square lin0 le_refl r]
  have inv: "square n A" "square n W"
    "\<And>r c. r < n \<Longrightarrow> c < n \<Longrightarrow> A ! r ! c = (\<Sum>k<n. W ! r ! k * M ! k ! c)"
    "\<And>r c. r < n \<Longrightarrow> c < n \<Longrightarrow> A ! r ! c = (if r = c then 1 else 0)"
    by auto
  show "square n W" by (rule inv(2))
  show e: "(\<Sum>k<n. W ! r ! k * M ! k ! c) = (if r = c then 1 else 0)" if "r < n" "c < n" for r c
    using inv(3)[OF that] inv(4)[OF that] by simp
  show "matMul W M = identity n"
  proof (cases "n = 0")
    case True
    then show ?thesis using squareL[OF inv(2)] by (simp add: matMul_def identity_def)
  next
    case False
    then have h: "length (hd M) = n" using hd_square[OF sq] by simp
    show ?thesis
    proof (rule nth_equalityI)
      show "length (matMul W M) = length (identity n)"
        using inv(2) by (simp add: matMul_length squareL identity_def)
      fix r assume "r < length (matMul W M)"
      then have r: "r < n" using inv(2) by (simp add: matMul_length squareL)
      then have rW: "r < length W" "length (W ! r) = n"
        using inv(2) by (simp_all add: squareL squareD)
      show "matMul W M ! r = identity n ! r"
      proof (rule nth_equalityI)
        show "length (matMul W M ! r) = length (identity n ! r)"
          using r rW h by (simp add: matMul_length identity_def)
        fix c assume "c < length (matMul W M ! r)"
        then have c: "c < n" using rW h by (simp add: matMul_length)
        show "matMul W M ! r ! c = identity n ! r ! c"
          using r c rW h e[OF r c] by (simp add: matMul_nth identity_nth)
      qed
    qed
  qed
qed

lemma gj_rounds_fails:
  "gj_rounds n k AI = Inl e \<longleftrightarrow>
     (\<exists>i<k. \<exists>A I. gj_rounds n i AI = Inr (A, I) \<and> gj_step n i (A, I) = Inl e)"
proof (induction k arbitrary: e)
  case 0
  then show ?case by simp
next
  case (Suc k)
  show ?case
  proof (cases "gj_rounds n k AI")
    case (Inl e')
    have "\<not> (\<exists>A I. gj_rounds n k AI = Inr (A, I) \<and> gj_step n k (A, I) = Inl e)"
      using Inl by simp
    then show ?thesis
      using Suc Inl by (auto simp: gj_rounds_Suc less_Suc_eq)
  next
    case (Inr AI')
    then have no: "\<not> (\<exists>i<k. \<exists>A I. gj_rounds n i AI = Inr (A, I) \<and> gj_step n i (A, I) = Inl e')" for e'
      using Suc[of e'] by simp
    show ?thesis
      using Inr no by (cases AI') (auto simp: gj_rounds_Suc less_Suc_eq)
  qed
qed

lemma invSym_fails:
  "invSym M = Inl e \<longleftrightarrow>
     e = Error ''Singular matrix'' \<and>
     (\<exists>i<length M. \<exists>A I. gj_rounds (length M) i (M, identity (length M)) = Inr (A, I)
         \<and> \<bar>A ! pivot_row A i (length M) ! i\<bar> < 1 / 10 ^ 8)"
proof -
  have "invSym M = Inl e \<longleftrightarrow> gj_rounds (length M) (length M) (M, identity (length M)) = Inl e"
    by (auto simp: invSym_rounds split: sum.splits)
  then show ?thesis
    unfolding gj_rounds_fails gj_step_fails by blast
qed

lemma sum_delta_mult:
  fixes f :: "nat \<Rightarrow> real"
  assumes "c < n"
  shows "(\<Sum>j<n. f j * (if c = j then 1 else 0)) = f c"
    and "(\<Sum>j<n. (if c = j then 1 else 0) * f j) = f c"
proof -
  have "(\<Sum>j<n. f j * (if c = j then 1 else 0)) = (\<Sum>j<n. if c = j then f j else 0)"
    by (intro sum.cong refl) simp
  then show "(\<Sum>j<n. f j * (if c = j then 1 else 0)) = f c" using assms by simp
  have "(\<Sum>j<n. (if c = j then 1 else 0) * f j) = (\<Sum>j<n. if c = j then f j else 0)"
    by (intro sum.cong refl) simp
  then show "(\<Sum>j<n. (if c = j then 1 else 0) * f j) = f c" using assms by simp
qed

lemma left_inverse_symmetric:
  fixes T M :: "nat \<Rightarrow> nat \<Rightarrow> real"
  assumes sym: "\<And>r c. r < n \<Longrightarrow> c < n \<Longrightarrow> M r c = M c r"
    and li: "\<And>r c. r < n \<Longrightarrow> c < n \<Longrightarrow> (\<Sum>k<n. T r k * M k c) = (if r = c then 1 else 0)"
  shows "\<And>r c. r < n \<Longrightarrow> c < n \<Longrightarrow> T r c = T c r"
    and "\<And>r c. r < n \<Longrightarrow> c < n \<Longrightarrow> (\<Sum>k<n. M r k * T k c) = (if r = c then 1 else 0)"
proof -
  have R: "(\<Sum>k<n. M r k * T c k) = (if c = r then 1 else 0)" if "r < n" "c < n" for r c
  proof -
    have "(\<Sum>k<n. M r k * T c k) = (\<Sum>k<n. T c k * M k r)"
      using that by (intro sum.cong refl) (simp add: sym mult.commute)
    then show ?thesis using li[OF that(2,1)] by simp
  qed
  show S: "T r c = T c r" if r: "r < n" and c: "c < n" for r c
  proof -
    have "T r c = (\<Sum>j<n. T r j * (if c = j then 1 else 0))"
      using c by (simp only: sum_delta_mult)
    also have "\<dots> = (\<Sum>j<n. T r j * (\<Sum>k<n. M j k * T c k))"
      using c by (intro sum.cong refl) (simp add: R)
    also have "\<dots> = (\<Sum>j<n. \<Sum>k<n. (T r j * M j k) * T c k)"
      by (simp add: sum_distrib_left mult.assoc)
    also have "\<dots> = (\<Sum>k<n. \<Sum>j<n. (T r j * M j k) * T c k)"
      by (rule sum.swap)
    also have "\<dots> = (\<Sum>k<n. (\<Sum>j<n. T r j * M j k) * T c k)"
      by (simp add: sum_distrib_right)
    also have "\<dots> = (\<Sum>k<n. (if r = k then 1 else 0) * T c k)"
      using r by (intro sum.cong refl) (simp add: li)
    also have "\<dots> = T c r" using r by (simp only: sum_delta_mult)
    finally show ?thesis .
  qed
  show "(\<Sum>k<n. M r k * T k c) = (if r = c then 1 else 0)" if r: "r < n" and c: "c < n" for r c
  proof -
    have "(\<Sum>k<n. M r k * T k c) = (\<Sum>k<n. M r k * T c k)"
      using c by (intro sum.cong refl) (simp add: S)
    then show ?thesis using R[OF r c] by auto
  qed
qed

text \<open>For a symmetric matrix the result of invSym also solves M x = b.\<close>

lemma invSym_solves:
  assumes sq: "square n M" and ok: "invSym M = Inr W"
    and sym: "\<And>r c. r < n \<Longrightarrow> c < n \<Longrightarrow> M ! r ! c = M ! c ! r"
    and b: "length b = n"
  shows "matVec M (matVec W b) = b"
proof (rule nth_equalityI)
  note inv = invSym_inverse[OF sq ok]
  show "length (matVec M (matVec W b)) = length b" using sq b by (simp add: squareL)
  fix r assume "r < length (matVec M (matVec W b))"
  then have r: "r < n" using sq by (simp add: squareL)
  have lW: "length W = n" "\<And>k. k < n \<Longrightarrow> length (W ! k) = n"
    using inv(1) by (simp_all add: squareL squareD)
  have lM: "length M = n" "length (M ! r) = n" using sq r by (simp_all add: squareL squareD)
  have ri: "(\<Sum>k<n. M ! r ! k * W ! k ! c) = (if r = c then 1 else 0)" if "c < n" for c
    using left_inverse_symmetric(2)[of n "\<lambda>r c. M ! r ! c" "\<lambda>r c. W ! r ! c", OF sym inv(2) r that]
    by simp
  have "matVec M (matVec W b) ! r = (\<Sum>k<n. M ! r ! k * (\<Sum>j<n. W ! k ! j * b ! j))"
    using r lM lW
    by (simp add: matVec_nth)
  also have "\<dots> = (\<Sum>k<n. \<Sum>j<n. (M ! r ! k * W ! k ! j) * b ! j)"
    by (simp add: sum_distrib_left mult.assoc)
  also have "\<dots> = (\<Sum>j<n. \<Sum>k<n. (M ! r ! k * W ! k ! j) * b ! j)"
    by (rule sum.swap)
  also have "\<dots> = (\<Sum>j<n. (\<Sum>k<n. M ! r ! k * W ! k ! j) * b ! j)"
    by (simp add: sum_distrib_right)
  also have "\<dots> = (\<Sum>j<n. (if r = j then 1 else 0) * b ! j)"
    by (intro sum.cong refl) (simp add: ri)
  also have "\<dots> = b ! r" using r by (simp only: sum_delta_mult)
  finally show "matVec M (matVec W b) ! r = b ! r" .
qed

section \<open>Properties of the rounding\<close>

lemma round_half_even_int [simp]: "round_half_even (of_int z) = z"
  by (simp add: round_half_even_def)

lemma round_half_even_bounds: "\<lfloor>y\<rfloor> \<le> round_half_even y \<and> round_half_even y \<le> \<lfloor>y\<rfloor> + 1"
  by (simp add: round_half_even_def Let_def)

lemma floor_log2_eq:
  assumes "2 powr of_int E \<le> x" "x < 2 powr (of_int E + 1)"
  shows "\<lfloor>log 2 x\<rfloor> = E"
proof -
  have x: "0 < x" using assms(1) powr_gt_zero[of 2 "of_int E"] by linarith
  have "of_int E \<le> log 2 x" using assms(1) x by (simp add: le_log_iff)
  moreover have "log 2 x < of_int E + 1" using assms(2) x by (simp add: log_less_iff)
  ultimately show ?thesis by (simp add: floor_eq_iff)
qed

lemma powr_neg_nat: "(2::real) powr (- real n) = 1 / 2 ^ n"
  by (simp add: powr_minus powr_realpow inverse_eq_divide)

lemma round_double_neg_exp:
  assumes "1 / 2 ^ n \<le> \<bar>x\<bar>" "\<bar>x\<bar> < 2 / 2 ^ n"
  shows "round_double x = of_int (round_half_even (x * 2 ^ (n + 52))) / 2 ^ (n + 52)"
proof -
  have p: "(2::real) powr of_int (- int n) = 1 / 2 ^ n"
    using powr_neg_nat[of n] by simp
  have "(2::real) powr (of_int (- int n) + 1) = 2 powr of_int (- int n) * 2 powr 1"
    by (rule powr_add)
  then have p1: "(2::real) powr (of_int (- int n) + 1) = 2 / 2 ^ n"
    unfolding p by simp
  have E: "\<lfloor>log 2 \<bar>x\<bar>\<rfloor> = - int n"
    by (rule floor_log2_eq) (use assms p p1 in simp_all)
  have "(0::real) < 2 ^ n" by simp
  then have "(0::real) < 1 / 2 ^ n" by simp
  with assms(1) have "0 < \<bar>x\<bar>" by linarith
  then have x: "x \<noteq> 0" by simp
  have q: "(2::real) powr of_int (- int n - 52) = 1 / 2 ^ (n + 52)"
    using powr_neg_nat[of "n + 52"] by (simp add: algebra_simps)
  show ?thesis
    unfolding round_double_def Let_def E q using x by simp
qed

lemma round_double_scaled:
  assumes "2 ^ 52 \<le> \<bar>x\<bar> * 2 ^ k" "\<bar>x\<bar> * 2 ^ k < 2 ^ 53"
  shows "round_double x = of_int (round_half_even (x * 2 ^ k)) / 2 ^ k"
proof -
  have "(2::real) powr (52 - real k) = 2 powr 52 / 2 powr real k"
    by (rule powr_diff)
  then have p: "(2::real) powr of_int (52 - int k) = 2 ^ 52 / 2 ^ k"
    by (simp add: powr_realpow)
  have "(2::real) powr (of_int (52 - int k) + 1) = 2 powr of_int (52 - int k) * 2 powr 1"
    by (rule powr_add)
  then have p1: "(2::real) powr (of_int (52 - int k) + 1) = 2 ^ 53 / 2 ^ k"
    unfolding p by simp
  have k: "(0::real) < 2 ^ k" by simp
  have E: "\<lfloor>log 2 \<bar>x\<bar>\<rfloor> = 52 - int k"
  proof (rule floor_log2_eq)
    show "2 powr real_of_int (52 - int k) \<le> \<bar>x\<bar>"
      unfolding p using assms(1) k by (simp add: field_simps)
    show "\<bar>x\<bar> < 2 powr (real_of_int (52 - int k) + 1)"
      unfolding p1 using assms(2) k by (simp add: field_simps)
  qed
  have "(0::real) < 2 ^ 52" by simp
  with assms(1) have "0 < \<bar>x\<bar> * 2 ^ k" by linarith
  then have x: "x \<noteq> 0" by auto
  have q: "(2::real) powr of_int (52 - int k - 52) = 1 / 2 ^ k"
    using powr_neg_nat[of k] by simp
  show ?thesis
    unfolding round_double_def Let_def E q using x by simp
qed

lemma round_double_bounds:
  assumes "1 / 2 ^ n \<le> x" "x < 2 / 2 ^ n"
  shows "1 / 2 ^ n \<le> round_double x \<and> round_double x \<le> 2 / 2 ^ n"
proof -
  have "(0::real) < 2 ^ n" by simp
  then have "(0::real) < 1 / 2 ^ n" by simp
  with assms(1) have x: "0 < x" by linarith
  define y where "y = x * 2 ^ (n + 52)"
  have y1: "2 ^ 52 \<le> y" using assms(1) by (simp add: y_def power_add field_simps)
  have y2: "y < 2 ^ 53" using assms(2) by (simp add: y_def power_add field_simps)
  have f1: "2 ^ 52 \<le> \<lfloor>y\<rfloor>" using y1 by (simp add: le_floor_iff)
  have f2: "\<lfloor>y\<rfloor> < 2 ^ 53" using y2 by (simp add: floor_less_iff)
  have r: "round_double x = of_int (round_half_even y) / 2 ^ (n + 52)"
    unfolding y_def by (rule round_double_neg_exp) (use assms x in simp_all)
  have b: "2 ^ 52 \<le> round_half_even y" "round_half_even y \<le> 2 ^ 53"
    using round_half_even_bounds[of y] f1 f2 by linarith+
  have b1: "(2::real) ^ 52 \<le> of_int (round_half_even y)" using b(1) by (metis of_int_le_iff of_int_numeral of_int_power)
  have b2: "of_int (round_half_even y) \<le> (2::real) ^ 53" using b(2) by (metis of_int_le_iff of_int_numeral of_int_power)
  show ?thesis
    unfolding r using b1 b2 by (simp add: power_add field_simps)
qed

lemma round_double_dyadic:
  assumes "\<bar>m\<bar> < 2 ^ 53"
  shows "round_double (of_int m / 2 ^ n) = of_int m / 2 ^ n"
proof (cases "m = 0")
  case True
  then show ?thesis by (simp add: round_double_def)
next
  case False
  define L where "L = \<lfloor>log 2 \<bar>of_int m :: real\<bar>\<rfloor>"
  have "1 \<le> \<bar>m\<bar>" using False by simp
  then have "(1::real) \<le> of_int \<bar>m\<bar>" by (simp only: of_int_1_le_iff)
  then have m1: "1 \<le> \<bar>of_int m :: real\<bar>" by simp
  have "(of_int \<bar>m\<bar> :: real) < of_int (2 ^ 53)" using assms by (simp only: of_int_less_iff)
  then have m2: "\<bar>of_int m :: real\<bar> < 2 ^ 53" by simp
  have l0: "0 \<le> L" using m1 by (simp add: L_def)
  have "log 2 \<bar>of_int m :: real\<bar> < 53"
    using m1 m2 by (simp add: log_less_iff powr_realpow[symmetric])
  then have l1: "L \<le> 52" by (simp add: L_def floor_le_iff)
  let ?x = "of_int m / 2 ^ n :: real"
  have x: "?x \<noteq> 0" using False by simp
  have "log 2 \<bar>?x\<bar> = log 2 \<bar>of_int m\<bar> - real n"
    using m1 False by (simp add: abs_divide log_divide log_nat_power)
  then have "\<lfloor>log 2 \<bar>?x\<bar>\<rfloor> = \<lfloor>log 2 \<bar>of_int m\<bar> - of_int (int n)\<rfloor>"
    by simp
  also have "\<dots> = L - int n"
    unfolding L_def by (rule floor_diff_of_int)
  finally have E: "\<lfloor>log 2 \<bar>?x\<bar>\<rfloor> = L - int n" .
  define k where "k = nat (52 - L)"
  have k: "int k = 52 - L" using l1 by (simp add: k_def)
  have e: "(2::real) powr of_int (L - int n - 52) = 1 / (2 ^ k * 2 ^ n)"
  proof -
    have "L - int n - 52 = - int (k + n)" using k by simp
    then have "real_of_int (L - int n - 52) = real_of_int (- int (k + n))" by (rule arg_cong)
    then have "real_of_int (L - int n - 52) = - real (k + n)" by simp
    then have "(2::real) powr of_int (L - int n - 52) = 2 powr (- real (k + n))"
      by (rule arg_cong)
    also have "\<dots> = 1 / 2 ^ (k + n)" by (rule powr_neg_nat)
    finally show ?thesis by (simp add: power_add)
  qed
  have q: "?x / (1 / (2 ^ k * 2 ^ n)) = of_int (m * 2 ^ k)" by simp
  show ?thesis
    unfolding round_double_def Let_def E e q round_half_even_int using x by simp
qed

lemma round_double_int: "\<bar>m\<bar> < 2 ^ 53 \<Longrightarrow> round_double (of_int m) = of_int m"
  using round_double_dyadic[of m 0] by simp


lemma round_double_0 [simp]: "round_double 0 = 0"
  by (simp add: round_double_def)

lemma round_double_1 [simp]: "round_double 1 = 1"
  using round_double_int[of 1] by simp

lemma round_double_numeral [simp]:
  "numeral k < (2::int) ^ 53 \<Longrightarrow> round_double (numeral k) = numeral k"
  using round_double_int[of "numeral k"] by simp

lemma round_double_neg_numeral [simp]:
  "numeral k < (2::int) ^ 53 \<Longrightarrow> round_double (- numeral k) = - numeral k"
  using round_double_int[of "- numeral k"] by simp

lemma round_double_neg_1 [simp]: "round_double (- 1) = - 1"
  using round_double_int[of "- 1"] by simp

lemmas fl_defs = fl_add_def fl_sub_def fl_mul_def fl_div_def fl_sqrt_def

lemma round_double_tenth: "round_double (1 / 10) = tenth"
  unfolding tenth_def
  by (subst round_double_neg_exp[where n = 4]) (simp_all add: round_half_even_def)

lemma tenth_mean: "col_mean [tenth, tenth, tenth] = 7205759403792795 / 2 ^ 56"
proof -
  define s2 :: real where "s2 = 3602879701896397 / 2 ^ 54"
  define s3 :: real where "s3 = 5404319552844596 / 2 ^ 54"
  define m :: real where "m = 7205759403792795 / 2 ^ 56"
  have a: "fl_add 0 tenth = tenth"
    unfolding fl_add_def tenth_def using round_double_dyadic[of 3602879701896397 55] by simp
  have b: "fl_add tenth tenth = s2"
    unfolding fl_add_def tenth_def s2_def using round_double_dyadic[of 3602879701896397 54] by simp
  have c: "fl_add s2 tenth = s3"
    unfolding fl_add_def tenth_def s2_def s3_def
    by (subst round_double_neg_exp[where n = 2]) (simp_all add: round_half_even_def)
  have d: "fl_div s3 3 = m"
    unfolding fl_div_def s3_def m_def
    by (subst round_double_neg_exp[where n = 4]) (simp_all add: round_half_even_def)
  have l: "real (length [tenth, tenth, tenth]) = 3" by simp
  have "col_mean [tenth, tenth, tenth] = m"
    unfolding col_mean_def l by (simp only: foldl_Cons foldl_Nil a b c d)
  then show ?thesis by (simp only: m_def)
qed

lemma tenth_sd: "1 / 2 ^ 56 \<le> col_sd [tenth, tenth, tenth] \<and> col_sd [tenth, tenth, tenth] \<le> 2 / 2 ^ 56"
proof -
  define m :: real where "m = 7205759403792795 / 2 ^ 56"
  define dv :: real where "dv = - 1 / 2 ^ 56"
  define q :: real where "q = 1 / 2 ^ 112"
  define q2 :: real where "q2 = 2 / 2 ^ 112"
  define q3 :: real where "q3 = 3 / 2 ^ 112"
  define v :: real where "v = 3 / 2 ^ 113"
  have mm: "col_mean [tenth, tenth, tenth] = m" unfolding m_def by (rule tenth_mean)
  have a: "fl_sub tenth m = dv"
    unfolding fl_sub_def tenth_def m_def dv_def using round_double_dyadic[of "- 1" 56] by simp
  have b: "fl_mul dv dv = q"
    unfolding fl_mul_def dv_def q_def using round_double_dyadic[of 1 112] by simp
  have c: "fl_add 0 q = q"
    unfolding fl_add_def q_def using round_double_dyadic[of 1 112] by simp
  have d: "fl_add q q = q2"
    unfolding fl_add_def q_def q2_def using round_double_dyadic[of 2 112] by simp
  have e: "fl_add q2 q = q3"
    unfolding fl_add_def q_def q2_def q3_def using round_double_dyadic[of 3 112] by simp
  have f: "fl_div q3 2 = v"
    unfolding fl_div_def q3_def v_def using round_double_dyadic[of 3 113] by simp
  have s1: "1 / 2 ^ 56 \<le> sqrt v"
    unfolding v_def by (rule real_le_rsqrt) (simp add: power2_eq_square)
  have s2: "sqrt v < 2 / 2 ^ 56"
    unfolding v_def by (rule real_less_lsqrt) (simp_all add: power2_eq_square)
  from round_double_bounds[OF s1 s2]
  have g: "1 / 2 ^ 56 \<le> fl_sqrt v" "fl_sqrt v \<le> 2 / 2 ^ 56"
    by (simp_all add: fl_sqrt_def)
  have "(0::real) < 1 / 2 ^ 56" by simp
  with g(1) have nz: "fl_sqrt v \<noteq> 0" by linarith
  have l: "real (max 1 (length [tenth, tenth, tenth] - 1)) = 2" by simp
  have "col_sd [tenth, tenth, tenth] = fl_sqrt v"
    unfolding col_sd_def Let_def mm l
    by (simp only: foldl_Cons foldl_Nil a b c d e f nz if_False)
  then show ?thesis using g by simp
qed

lemma foldl_squares_exact:
  assumes "fl_mul (fl_sub c m) (fl_sub c m) = 1 / 2 ^ e" and "int j + int n < 2 ^ 53"
  shows "foldl (\<lambda>a b. fl_add a (fl_mul (fl_sub b m) (fl_sub b m))) (of_nat j / 2 ^ e) (replicate n c)
           = of_nat (j + n) / 2 ^ e"
  using assms(2)
proof (induction n arbitrary: j)
  case 0
  then show ?case by simp
next
  case (Suc n)
  have "\<bar>int (Suc j)\<bar> < 2 ^ 53" using Suc.prems by simp
  from round_double_dyadic[OF this, of e]
  have "fl_add (of_nat j / 2 ^ e) (1 / 2 ^ e) = of_nat (Suc j) / 2 ^ e"
    by (simp add: fl_add_def add_divide_distrib[symmetric] algebra_simps)
  then show ?case
    using Suc.IH[of "Suc j"] Suc.prems by (simp add: assms(1))
qed

lemma r24: "replicate 24 x = [x, x, x, x, x, x, x, x, x, x, x, x, x, x, x, x, x, x, x, x, x, x, x, x]"
  by (simp add: numeral_eq_Suc)


lemma round_double_fill: "round_double (- 3 / 10) = fill"
  unfolding fill_def
  by (subst round_double_scaled[where k = 54]) (simp_all add: round_half_even_def)

lemma fill_mean: "col_mean (replicate 24 fill) = fill + 1 / 2 ^ 53"
proof -
  define s1 :: real where "s1 = - 5404319552844595 / 2 ^ 54"
  define s2 :: real where "s2 = - 5404319552844595 / 2 ^ 53"
  define s3 :: real where "s3 = - 2026619832316723 / 2 ^ 51"
  define s4 :: real where "s4 = - 5404319552844595 / 2 ^ 52"
  define s5 :: real where "s5 = - 3 / 2 ^ 1"
  define s6 :: real where "s6 = - 8106479329266893 / 2 ^ 52"
  define s7 :: real where "s7 = - 4728779608739021 / 2 ^ 51"
  define s8 :: real where "s8 = - 5404319552844595 / 2 ^ 51"
  define s9 :: real where "s9 = - 6079859496950169 / 2 ^ 51"
  define s10 :: real where "s10 = - 6755399441055743 / 2 ^ 51"
  define s11 :: real where "s11 = - 7430939385161317 / 2 ^ 51"
  define s12 :: real where "s12 = - 8106479329266891 / 2 ^ 51"
  define s13 :: real where "s13 = - 8782019273372465 / 2 ^ 51"
  define s14 :: real where "s14 = - 1182194902184755 / 2 ^ 48"
  define s15 :: real where "s15 = - 5066549580791807 / 2 ^ 50"
  define s16 :: real where "s16 = - 2702159776422297 / 2 ^ 49"
  define s17 :: real where "s17 = - 5742089524897381 / 2 ^ 50"
  define s18 :: real where "s18 = - 759982437118771 / 2 ^ 47"
  define s19 :: real where "s19 = - 6417629469002955 / 2 ^ 50"
  define s20 :: real where "s20 = - 3377699720527871 / 2 ^ 49"
  define s21 :: real where "s21 = - 7093169413108529 / 2 ^ 50"
  define s22 :: real where "s22 = - 1857734846290329 / 2 ^ 48"
  define s23 :: real where "s23 = - 7768709357214103 / 2 ^ 50"
  define s24 :: real where "s24 = - 4053239664633445 / 2 ^ 49"
  have a1: "fl_add 0 fill = s1"
    unfolding fl_add_def fill_def s1_def
    by (subst round_double_scaled[where k = 54]) (simp_all add: round_half_even_def)
  have a2: "fl_add s1 fill = s2"
    unfolding fl_add_def fill_def s1_def s2_def
    by (subst round_double_scaled[where k = 53]) (simp_all add: round_half_even_def)
  have a3: "fl_add s2 fill = s3"
    unfolding fl_add_def fill_def s2_def s3_def
    by (subst round_double_scaled[where k = 53]) (simp_all add: round_half_even_def)
  have a4: "fl_add s3 fill = s4"
    unfolding fl_add_def fill_def s3_def s4_def
    by (subst round_double_scaled[where k = 52]) (simp_all add: round_half_even_def)
  have a5: "fl_add s4 fill = s5"
    unfolding fl_add_def fill_def s4_def s5_def
    by (subst round_double_scaled[where k = 52]) (simp_all add: round_half_even_def)
  have a6: "fl_add s5 fill = s6"
    unfolding fl_add_def fill_def s5_def s6_def
    by (subst round_double_scaled[where k = 52]) (simp_all add: round_half_even_def)
  have a7: "fl_add s6 fill = s7"
    unfolding fl_add_def fill_def s6_def s7_def
    by (subst round_double_scaled[where k = 51]) (simp_all add: round_half_even_def)
  have a8: "fl_add s7 fill = s8"
    unfolding fl_add_def fill_def s7_def s8_def
    by (subst round_double_scaled[where k = 51]) (simp_all add: round_half_even_def)
  have a9: "fl_add s8 fill = s9"
    unfolding fl_add_def fill_def s8_def s9_def
    by (subst round_double_scaled[where k = 51]) (simp_all add: round_half_even_def)
  have a10: "fl_add s9 fill = s10"
    unfolding fl_add_def fill_def s9_def s10_def
    by (subst round_double_scaled[where k = 51]) (simp_all add: round_half_even_def)
  have a11: "fl_add s10 fill = s11"
    unfolding fl_add_def fill_def s10_def s11_def
    by (subst round_double_scaled[where k = 51]) (simp_all add: round_half_even_def)
  have a12: "fl_add s11 fill = s12"
    unfolding fl_add_def fill_def s11_def s12_def
    by (subst round_double_scaled[where k = 51]) (simp_all add: round_half_even_def)
  have a13: "fl_add s12 fill = s13"
    unfolding fl_add_def fill_def s12_def s13_def
    by (subst round_double_scaled[where k = 51]) (simp_all add: round_half_even_def)
  have a14: "fl_add s13 fill = s14"
    unfolding fl_add_def fill_def s13_def s14_def
    by (subst round_double_scaled[where k = 50]) (simp_all add: round_half_even_def)
  have a15: "fl_add s14 fill = s15"
    unfolding fl_add_def fill_def s14_def s15_def
    by (subst round_double_scaled[where k = 50]) (simp_all add: round_half_even_def)
  have a16: "fl_add s15 fill = s16"
    unfolding fl_add_def fill_def s15_def s16_def
    by (subst round_double_scaled[where k = 50]) (simp_all add: round_half_even_def)
  have a17: "fl_add s16 fill = s17"
    unfolding fl_add_def fill_def s16_def s17_def
    by (subst round_double_scaled[where k = 50]) (simp_all add: round_half_even_def)
  have a18: "fl_add s17 fill = s18"
    unfolding fl_add_def fill_def s17_def s18_def
    by (subst round_double_scaled[where k = 50]) (simp_all add: round_half_even_def)
  have a19: "fl_add s18 fill = s19"
    unfolding fl_add_def fill_def s18_def s19_def
    by (subst round_double_scaled[where k = 50]) (simp_all add: round_half_even_def)
  have a20: "fl_add s19 fill = s20"
    unfolding fl_add_def fill_def s19_def s20_def
    by (subst round_double_scaled[where k = 50]) (simp_all add: round_half_even_def)
  have a21: "fl_add s20 fill = s21"
    unfolding fl_add_def fill_def s20_def s21_def
    by (subst round_double_scaled[where k = 50]) (simp_all add: round_half_even_def)
  have a22: "fl_add s21 fill = s22"
    unfolding fl_add_def fill_def s21_def s22_def
    by (subst round_double_scaled[where k = 50]) (simp_all add: round_half_even_def)
  have a23: "fl_add s22 fill = s23"
    unfolding fl_add_def fill_def s22_def s23_def
    by (subst round_double_scaled[where k = 50]) (simp_all add: round_half_even_def)
  have a24: "fl_add s23 fill = s24"
    unfolding fl_add_def fill_def s23_def s24_def
    by (subst round_double_scaled[where k = 50]) (simp_all add: round_half_even_def)
  have d: "fl_div s24 24 = fill + 1 / 2 ^ 53"
    unfolding fl_div_def fill_def s24_def
    by (subst round_double_scaled[where k = 54]) (simp_all add: round_half_even_def)
  have l: "real (length (replicate 24 fill)) = 24" by simp
  have "foldl fl_add 0 (replicate 24 fill) = s24"
    unfolding r24 by (simp only: foldl_Cons foldl_Nil a1 a2 a3 a4 a5 a6 a7 a8 a9 a10 a11 a12 a13 a14 a15 a16 a17 a18 a19 a20 a21 a22 a23 a24)
  then show ?thesis
    unfolding col_mean_def l by (simp only: d)
qed

lemma fill_sd:
  "1 / 2 ^ 53 \<le> col_sd (replicate 24 fill) \<and> col_sd (replicate 24 fill) \<le> 2 / 2 ^ 53"
proof -
  define m :: real where "m = fill + 1 / 2 ^ 53"
  define v :: real where "v = 4699408306821387 / 2 ^ 158"
  have mm: "col_mean (replicate 24 fill) = m" unfolding m_def by (rule fill_mean)
  have a: "fl_sub fill m = - 1 / 2 ^ 53"
    unfolding fl_sub_def m_def using round_double_dyadic[of "- 1" 53] by simp
  have b: "fl_mul (fl_sub fill m) (fl_sub fill m) = 1 / 2 ^ 106"
    unfolding a fl_mul_def using round_double_dyadic[of 1 106] by simp
  have "foldl (\<lambda>a b. fl_add a (fl_mul (fl_sub b m) (fl_sub b m))) (of_nat 0 / 2 ^ 106)
          (replicate 24 fill) = of_nat (0 + 24) / 2 ^ 106"
    by (rule foldl_squares_exact[OF b]) simp
  then have c: "foldl (\<lambda>a b. fl_add a (fl_mul (fl_sub b m) (fl_sub b m))) 0 (replicate 24 fill)
      = 24 / 2 ^ 106"
    by simp
  have f: "fl_div (24 / 2 ^ 106) 23 = v"
    unfolding fl_div_def v_def
    by (subst round_double_scaled[where k = 158]) (simp_all add: round_half_even_def)
  have s1: "1 / 2 ^ 53 \<le> sqrt v"
    unfolding v_def by (rule real_le_rsqrt) (simp add: power2_eq_square)
  have s2: "sqrt v < 2 / 2 ^ 53"
    unfolding v_def by (rule real_less_lsqrt) (simp_all add: power2_eq_square)
  from round_double_bounds[OF s1 s2]
  have g: "1 / 2 ^ 53 \<le> fl_sqrt v" "fl_sqrt v \<le> 2 / 2 ^ 53"
    by (simp_all add: fl_sqrt_def)
  have "(0::real) < 1 / 2 ^ 53" by simp
  with g(1) have nz: "fl_sqrt v \<noteq> 0" by linarith
  have l: "real (max 1 (length (replicate 24 fill) - 1)) = 23" by simp
  have "col_sd (replicate 24 fill) = fl_sqrt v"
    unfolding col_sd_def Let_def mm l c f using nz by simp
  then show ?thesis using g by simp
qed

lemma half_sd: "col_sd (replicate 24 (1 / 2)) = 1"
proof -
  have e: "round_double (real_of_int k / 2) = real_of_int k / 2" if "\<bar>k\<bar> < 2 ^ 53" for k
    using round_double_dyadic[OF that, of 1] by simp
  have s: "foldl fl_add (of_nat j / 2) (replicate n (1 / 2)) = of_nat (j + n) / 2"
    if "int j + int n < 2 ^ 53" for j n
    using that
  proof (induction n arbitrary: j)
    case 0
    then show ?case by simp
  next
    case (Suc n)
    have st: "fl_add (of_nat j / 2) (1 / 2) = of_nat (Suc j) / 2"
      using e[of "int (Suc j)"] Suc.prems
      by (simp add: fl_add_def add_divide_distrib[symmetric] algebra_simps)
    have "foldl fl_add (of_nat (Suc j) / 2) (replicate n (1 / 2)) = of_nat (Suc j + n) / 2"
      using Suc.IH[of "Suc j"] Suc.prems by simp
    then show ?case by (simp only: replicate_Suc foldl_Cons st) simp
  qed
  have "foldl fl_add 0 (replicate 24 (1 / 2)) = 12"
    using s[of 0 24] by simp
  then have m: "col_mean (replicate 24 (1 / 2)) = 1 / 2"
    using e[of 1] by (simp add: col_mean_def fl_div_def)
  have z: "foldl (\<lambda>a b. fl_add a (fl_mul (fl_sub b (1 / 2)) (fl_sub b (1 / 2)))) 0
      (replicate n (1 / 2)) = 0" for n
    by (induction n) (simp_all add: fl_defs)
  show ?thesis
    unfolding col_sd_def Let_def m z by (simp add: fl_defs)
qed

section \<open>Properties of the trainer\<close>

lemma standardize_row_length [simp]: "length (standardize_row mu sig row) = length row"
  by (simp add: standardize_row_def)

lemma train_shapes:
  assumes "X \<noteq> []"
  shows "length (train_xN X) = length X" "length (hd (train_xN X)) = length (hd X)"
    "square (length (hd X)) (train_XTX X)" "length (train_XTy X Y) = length (hd X)"
    "\<And>r c. r < length (hd X) \<Longrightarrow> c < length (hd X) \<Longrightarrow>
        train_XTX X ! r ! c = (\<Sum>k<length X. train_xN X ! k ! r * train_xN X ! k ! c)"
    "\<And>r. r < length (hd X) \<Longrightarrow>
        train_XTy X Y ! r = (\<Sum>k<length X. train_xN X ! k ! r * train_yN Y ! k)"
proof -
  show l: "length (train_xN X) = length X" by (simp add: train_xN_def)
  show h: "length (hd (train_xN X)) = length (hd X)"
    using assms by (simp add: train_xN_def hd_map)
  have T: "length (transposeM (train_xN X)) = length (hd X)"
    "\<And>r. r < length (hd X) \<Longrightarrow> length (transposeM (train_xN X) ! r) = length X"
    "\<And>r k. r < length (hd X) \<Longrightarrow> k < length X \<Longrightarrow>
        transposeM (train_xN X) ! r ! k = train_xN X ! k ! r"
    using h l by (simp_all add: transposeM_nth)
  show "square (length (hd X)) (train_XTX X)"
    by (rule squareI) (simp_all add: train_XTX_def matMul_length T h)
  show "length (train_XTy X Y) = length (hd X)" by (simp add: train_XTy_def T)
  show "train_XTX X ! r ! c = (\<Sum>k<length X. train_xN X ! k ! r * train_xN X ! k ! c)"
    if "r < length (hd X)" "c < length (hd X)" for r c
    using that by (simp add: train_XTX_def matMul_nth T h)
  show "train_XTy X Y ! r = (\<Sum>k<length X. train_xN X ! k ! r * train_yN Y ! k)"
    if "r < length (hd X)" for r
    using that by (simp add: train_XTy_def matVec_nth T)
qed

text \<open>\<open>infer\<close> of the linear model on a row of numbers.\<close>

lemma linear_infer_sum:
  "linear_infer mu sig yMu ySig w (map Num row) =
     Num (unstandardize yMu ySig
            (\<Sum>j<length row. standardize (mu ! j) (sig ! j) (row ! j) * w ! j))"
proof -
  have r: "standardize_input mu sig (map Num row)
      = map (\<lambda>j. Num (standardize (mu ! j) (sig ! j) (row ! j))) [0..<length row]"
    by (simp add: standardize_input_def)
  have "foldl (\<lambda>a idx. num2 (+) a
            (map_number (\<lambda>b. b * w ! idx)
               (map (\<lambda>j. Num (standardize (mu ! j) (sig ! j) (row ! j))) [0..<length row] ! idx)))
          (Num a) [0..<n]
      = Num (a + (\<Sum>j<n. standardize (mu ! j) (sig ! j) (row ! j) * w ! j))"
    if "n \<le> length row" for n a
    using that by (induction n) (simp_all add: algebra_simps)
  from this[of "length row" 0] show ?thesis
    by (simp add: linear_infer_def Let_def r)
qed

text \<open>A NaN in the row makes the result of the linear model NaN.\<close>

lemma foldl_num_NaN: "foldl (\<lambda>a idx. num2 (+) a (g idx)) NaN xs = NaN"
  by (induction xs) simp_all

lemma linear_infer_NaN:
  assumes "NaN \<in> set row"
  shows "linear_infer mu sig yMu ySig w row = NaN"
proof -
  let ?g = "\<lambda>idx. map_number (\<lambda>b. b * w ! idx) (standardize_input mu sig row ! idx)"
  have n: "foldl (\<lambda>a idx. num2 (+) a (?g idx)) a [0..<k] = NaN"
    if "i < k" "?g i = NaN" for a i k
    using that
  proof (induction k)
    case 0
    then show ?case by simp
  next
    case (Suc k)
    show ?case
    proof (cases "i = k")
      case True
      then show ?thesis using Suc.prems by simp
    next
      case False
      then have "foldl (\<lambda>a idx. num2 (+) a (?g idx)) a [0..<k] = NaN"
        using Suc by simp
      then show ?thesis by simp
    qed
  qed
  from assms obtain i where i: "i < length row" "row ! i = NaN"
    by (auto simp: in_set_conv_nth)
  then have "?g i = NaN" by (simp add: standardize_input_def)
  from n[OF _ this, of "length row"] i(1) show ?thesis
    by (simp add: linear_infer_def Let_def standardize_input_def)
qed

lemma trainModel_linear:
  assumes "X \<noteq> []"
  shows "trainModel None (X, Y) cfg =
     (case invSym (train_XTX X) of
        Inl e \<Rightarrow> Inl e
      | Inr W \<Rightarrow> Inr \<lparr>mtype = ''lin'',
           infer = linear_infer (train_mu X) (train_sig X) (col_mean Y) (col_sd Y)
                     (matVec W (train_XTy X Y)),
           rmse = Num (sqrt (mse (matVec (train_xN X) (matVec W (train_XTy X Y))) (train_yN Y))
                         * col_sd Y)\<rparr>)"
  using assms by (simp add: trainModel_def Let_def split: sum.splits)

lemma run_training_fails:
  assumes "24 \<le> length (fst (buildDataset vi wx))"
    and "trainModel tf (buildDataset vi wx) \<lparr>epochs = run_epochs ef, lr = run_lr lf\<rparr> = Inl e"
  shows "run tf ef lf vi wx = Failed e"
proof -
  have "vi \<noteq> []" using assms(1) by (auto simp: buildDataset_Nil)
  then show ?thesis using assms by (simp add: run_def Let_def)
qed

text \<open>
  The linear path on a dataset of rows of equal length with one target for each row:
  \<open>_invSym\<close> has returned a matrix whose product with \<open>XTX\<close> is the identity, the weights
  solve the normal equations, and \<open>infer\<close> standardizes its row, takes the product with
  the weights and un-standardizes it; a NaN in the row makes the result NaN.
\<close>

lemma linear_path:
  assumes "X \<noteq> []" and "list_all (\<lambda>r. length r = length (hd X)) X"
    and "length Y = length X" and "trainModel None (X, Y) cfg = Inr m"
  shows "\<exists>W. invSym (train_XTX X) = Inr W
            \<and> matMul W (train_XTX X) = identity (length (hd X))
            \<and> matVec (train_XTX X) (matVec W (train_XTy X Y)) = train_XTy X Y
            \<and> (\<forall>row. infer m (map Num row) =
                  Num (unstandardize (col_mean Y) (col_sd Y)
                    (\<Sum>j<length row. standardize (train_mu X ! j) (train_sig X ! j) (row ! j)
                                      * matVec W (train_XTy X Y) ! j)))
            \<and> (\<forall>row. NaN \<in> set row \<longrightarrow> infer m row = NaN)"
proof -
  let ?n = "length (hd X)"
  note sh = train_shapes[OF assms(1)]
  from assms(4) obtain W where W: "invSym (train_XTX X) = Inr W"
    and m: "m = \<lparr>mtype = ''lin'',
           infer = linear_infer (train_mu X) (train_sig X) (col_mean Y) (col_sd Y)
                     (matVec W (train_XTy X Y)),
           rmse = Num (sqrt (mse (matVec (train_xN X) (matVec W (train_XTy X Y))) (train_yN Y))
                         * col_sd Y)\<rparr>"
    unfolding trainModel_linear[OF assms(1)] by (auto split: sum.splits)
  have sym: "train_XTX X ! r ! c = train_XTX X ! c ! r" if "r < ?n" "c < ?n" for r c
    using that by (simp add: sh(5) mult.commute)
  have 6: "matMul W (train_XTX X) = identity ?n"
    by (rule invSym_inverse(3)[OF sh(3) W])
  have 7: "matVec (train_XTX X) (matVec W (train_XTy X Y)) = train_XTy X Y"
    by (rule invSym_solves[OF sh(3) W sym sh(4)])
  have 8: "infer m (map Num row) =
                  Num (unstandardize (col_mean Y) (col_sd Y)
                    (\<Sum>j<length row. standardize (train_mu X ! j) (train_sig X ! j) (row ! j)
                                      * matVec W (train_XTy X Y) ! j))" for row
    by (simp add: m linear_infer_sum)
  have 9: "infer m row = NaN" if "NaN \<in> set row" for row
    using that by (simp add: m linear_infer_NaN)
  show ?thesis
    using W 6 7 8 9 by blast
qed

lemma invSym_one:
  assumes "1 / 10 ^ 8 \<le> \<bar>a\<bar>"
  shows "invSym [[a]] = Inr [[1 / a]]"
  using assms
  by (simp add: invSym_def gj_rounds_def gj_step_def pivot_row_def Let_def identity_def
        swap_rows_def scale_row_def sub_row_def)

lemma fill_trained:
  "invSym (train_XTX (replicate 24 [fill])) \<noteq> Inl (Error ''Singular matrix'')"
proof -
  let ?X = "replicate 24 [fill]"
  define s where "s = col_sd (replicate 24 fill)"
  define z where "z = (fill - (fill + 1 / 2 ^ 53)) / s"
  have X: "?X \<noteq> []" "hd ?X = [fill]" "length ?X = 24" by simp_all
  have col: "column ?X 0 = replicate 24 fill"
    by (simp add: column_def map_replicate)
  have mu: "train_mu ?X = [fill + 1 / 2 ^ 53]"
    by (simp add: train_mu_def col fill_mean)
  have sg: "train_sig ?X = [s]"
    by (simp add: train_sig_def col s_def)
  have xn: "train_xN ?X ! k ! 0 = z" if "k < 24" for k
    using that by (simp add: train_xN_def mu sg standardize_row_def standardize_def z_def)
  have sb: "1 / 2 ^ 53 \<le> s" "s \<le> 2 / 2 ^ 53" using fill_sd by (simp_all add: s_def)
  have "(0::real) < 1 / 2 ^ 53" by simp
  with sb(1) have sp: "0 < s" by linarith
  have zz: "z * z = (1 / 2 ^ 53) * (1 / 2 ^ 53) / (s * s)"
    by (simp add: z_def)
  have "s * s \<le> (2 / 2 ^ 53) * (2 / 2 ^ 53)"
    using sb sp by (intro mult_mono) simp_all
  then have "1 / 4 \<le> z * z"
    unfolding zz using sp by (simp add: field_simps)
  note sh = train_shapes[OF X(1)]
  have e: "train_XTX ?X ! 0 ! 0 = 24 * (z * z)"
    using sh(5)[of 0 0] xn by (simp add: X)
  have sq: "square 1 (train_XTX ?X)" using sh(3) by (simp add: X)
  then obtain a where a: "train_XTX ?X = [[a]]"
    by (auto simp: square_def length_Suc_conv)
  have "6 \<le> a" using e \<open>1 / 4 \<le> z * z\<close> by (simp add: a)
  then have "invSym [[a]] = Inr [[1 / a]]" by (intro invSym_one) simp
  then show ?thesis by (simp add: a)
qed

text \<open>
  For a field that is missing or empty or holds a text that parses as a number, both
  values are the parsed number moved to the nearest bound.
\<close>

lemma config_of_numbers:
  assumes "ef \<noteq> NotANumber" "lf \<noteq> NotANumber"
  shows "run_epochs ef = Num (max 20 (min 1000 (case ef of Number n \<Rightarrow> n | _ \<Rightarrow> 120)))"
    and "run_lr lf = Num (max 0.001 (min 0.1 (case lf of Number x \<Rightarrow> x | _ \<Rightarrow> 0.01)))"
  using assms
  by (cases ef; cases lf;
      simp add: run_epochs_def run_lr_def Math_max_def Math_min_def parseInt_or_def
        parseFloat_or_def)+

section \<open>The two day-of-year converters\<close>

text \<open>
  C10. \<open>Utils.doyToDate\<close> of app.js and \<open>ForecastManager._doyToDate\<close> of forecast.js give
  the same result for every year and every day-of-year, the same text or the same throw,
  so \<open>_toISO\<close> gives the same result with and without the global helper. The day is day
  \<open>dn\<close> counted from 1 January of the year that \<open>Date.UTC\<close> uses, which is \<open>1900 + year\<close> when
  \<open>0 \<le> year \<le> 99\<close> and \<open>year\<close> otherwise. When that 1 January is inside the time range of
  a \<open>Date\<close> and the day falls into the years 0 to 9999, the result is the date text of the
  day. For a year that \<open>Date.UTC\<close> uses from 0 to 9999 and \<open>dn\<close> from 1 to the length of that
  year, the day lies in that year and is its day number \<open>dn\<close>.
\<close>

theorem doy_converters_agree:
  fixes year dn :: int
  defines "yr \<equiv> (if 0 \<le> year \<and> year \<le> 99 then 1900 + year else year)"
  defines "n \<equiv> DayFromYear yr + (dn - 1)"
  shows "Utils_doyToDate year dn = doyToDate year dn
       \<and> toISO True tok = toISO False tok
       \<and> (\<bar>MakeDate (DayFromYear yr) 0\<bar> \<le> 8640000000000000
            \<and> DayFromYear 0 \<le> n \<and> n < DayFromYear 10000 \<longrightarrow>
            doyToDate year dn = Inr (IsoDate (iso_of_day n)))
       \<and> (0 \<le> yr \<and> yr \<le> 9999 \<and> 1 \<le> dn \<and> dn \<le> DaysInYear yr \<longrightarrow>
            doyToDate year dn = Inr (IsoDate (iso_of_day n))
          \<and> YearFromTime (Date_of_iso (IsoDate (iso_of_day n))) = yr
          \<and> DayWithinYear (Date_of_iso (IsoDate (iso_of_day n))) = dn - 1)"
proof -
  have 1: "Utils_doyToDate year dn = doyToDate year dn"
    by (rule Utils_doyToDate_eq)
  have 2: "toISO True tok = toISO False tok"
    by (cases tok) (simp_all add: toISO_def Utils_doyToDate_eq)
  have 3: "doyToDate year dn = Inr (IsoDate (iso_of_day n))"
    if r: "\<bar>MakeDate (DayFromYear yr) 0\<bar> \<le> 8640000000000000"
      and n: "DayFromYear 0 \<le> n" "n < DayFromYear 10000"
  proof -
    have c: "TimeClip (MakeDate (DayFromYear yr) 0) = Num (MakeDate (DayFromYear yr) 0)"
      using r by (rule TimeClip_in_range)
    have e: "MakeDate (DayFromYear yr) 0 + (dn - 1) * msPerDay = MakeDate n 0"
      by (simp add: MakeDate_def n_def algebra_simps)
    have "- 719528 \<le> n" "n < 2932897" using n by (simp_all add: DayFromYear_limits)
    then have "\<bar>MakeDate n 0\<bar> \<le> 8640000000000000"
      by (simp add: MakeDate_def msPerDay_def)
    then have c2: "TimeClip (MakeDate n 0) = Num (MakeDate n 0)" by (rule TimeClip_in_range)
    have p: "iso_prefix (MakeDate n 0) = IsoDate (iso_of_day n)"
      using iso_prefix_date[of "MakeDate n 0"] n by simp
    show ?thesis
      using doyToDate_eq[of year dn]
      by (simp add: yr_def[symmetric] c e c2 toISOString_date_def p)
  qed
  have 4: "doyToDate year dn = Inr (IsoDate (iso_of_day n))
          \<and> YearFromTime (Date_of_iso (IsoDate (iso_of_day n))) = yr
          \<and> DayWithinYear (Date_of_iso (IsoDate (iso_of_day n))) = dn - 1"
    if y: "0 \<le> yr" "yr \<le> 9999" and d: "1 \<le> dn" "dn \<le> DaysInYear yr"
  proof -
    have lo: "DayFromYear 0 \<le> DayFromYear yr" using y(1) by (rule DayFromYear_le)
    have "yr + 1 \<le> 10000" using y(2) by simp
    then have hi: "DayFromYear (yr + 1) \<le> DayFromYear 10000" by (rule DayFromYear_le)
    have n: "DayFromYear 0 \<le> n" "n < DayFromYear 10000"
      using lo hi d DayFromYear_Suc[of yr] by (simp_all add: n_def)
    have "- 719528 \<le> DayFromYear yr" "DayFromYear yr < 2932897"
      using lo hi DayFromYear_less[of yr "yr + 1"] by (simp_all add: DayFromYear_limits)
    then have r: "\<bar>MakeDate (DayFromYear yr) 0\<bar> \<le> 8640000000000000"
      by (simp add: MakeDate_def msPerDay_def)
    have D: "Date_of_iso (IsoDate (iso_of_day n)) = MakeDate n 0"
      using n by (simp add: Date_of_iso_def)
    have Y: "YearFromTime (MakeDate n 0) = yr" "DayWithinYear (MakeDate n 0) = dn - 1"
      using nth_day_of_year[OF d] by (simp_all add: n_def)
    show ?thesis
      using 3[OF r n] Y by (simp add: D)
  qed
  show ?thesis
    using 1 2 3 4 by blast
qed

theorem doy_converters_agree_witness:
  "(0::int) \<le> 2024 \<and> (2024::int) \<le> 9999 \<and> (1::int) \<le> 60 \<and> 60 \<le> DaysInYear 2024
   \<and> Utils_doyToDate 2024 60 = doyToDate 2024 60
   \<and> toISO True (YearDoy 2024 60) = toISO False (YearDoy 2024 60)
   \<and> doyToDate 2024 60 = Inr (IsoDate (iso_of_day 19782))
   \<and> YearFromTime (Date_of_iso (IsoDate (iso_of_day 19782))) = 2024
   \<and> DayWithinYear (Date_of_iso (IsoDate (iso_of_day 19782))) = 59
   \<and> MonthFromTime (Date_of_iso (IsoDate (iso_of_day 19782))) + 1 = 2
   \<and> DateFromTime (Date_of_iso (IsoDate (iso_of_day 19782))) = 29
   \<and> \<bar>MakeDate (DayFromYear 2024) 0\<bar> \<le> 8640000000000000
   \<and> DayFromYear 0 \<le> DayFromYear 2024 + (400 - 1)
   \<and> DayFromYear 2024 + (400 - 1) < DayFromYear 10000
   \<and> doyToDate 2024 400 = Inr (IsoDate (iso_of_day 20122))"
proof -
  have h: "(0::int) \<le> 2024 \<and> (2024::int) \<le> 9999 \<and> (1::int) \<le> 60 \<and> 60 \<le> DaysInYear 2024"
    by (simp add: DaysInYear_def)
  have n: "DayFromYear 2024 + 59 = 19782" by (simp add: DayFromYear_def)
  have D: "Date_of_iso (IsoDate (iso_of_day 19782)) = MakeDate 19782 0"
    by (simp add: Date_of_iso_def)
  have m: "MonthFromTime (MakeDate 19782 0) + 1 = 2 \<and> DateFromTime (MakeDate 19782 0) = 29"
    by code_simp
  have g: "\<bar>MakeDate (DayFromYear 2024) 0\<bar> \<le> 8640000000000000
      \<and> DayFromYear 0 \<le> DayFromYear 2024 + (400 - 1)
      \<and> DayFromYear 2024 + (400 - 1) < DayFromYear 10000"
    by (simp add: DayFromYear_def MakeDate_def msPerDay_def)
  have n': "DayFromYear 2024 + 399 = 20122" by (simp add: DayFromYear_def)
  have b: "DayFromYear 0 \<le> 20122 \<and> 20122 < DayFromYear 10000"
    by (simp add: DayFromYear_def)
  have l: "doyToDate 2024 400 = Inr (IsoDate (iso_of_day 20122))"
    using doy_converters_agree[of 2024 400 OtherText] g b by (simp add: n')
  have f: "Utils_doyToDate 2024 60 = doyToDate 2024 60
   \<and> toISO True (YearDoy 2024 60) = toISO False (YearDoy 2024 60)
   \<and> doyToDate 2024 60 = Inr (IsoDate (iso_of_day 19782))
   \<and> YearFromTime (Date_of_iso (IsoDate (iso_of_day 19782))) = 2024
   \<and> DayWithinYear (Date_of_iso (IsoDate (iso_of_day 19782))) = 59
   \<and> MonthFromTime (Date_of_iso (IsoDate (iso_of_day 19782))) + 1 = 2
   \<and> DateFromTime (Date_of_iso (IsoDate (iso_of_day 19782))) = 29"
    using h m doy_converters_agree[of 2024 60 "YearDoy 2024 60"]
    by (simp add: n D)
  show ?thesis
    using h f g l by simp
qed

text \<open>
  For a year from 0 to 99 the date is not in that year: day 1 of year 50 comes out as
  1 January 1950. Day 366 of the year 9999 is 1 January 10000, for which the result is
  no date text but \<open>+010000-01\<close>. For a year past the time range both converters throw.
\<close>

theorem doy_converters_two_digit_year:
  "doyToDate 50 1 = Inr (IsoDate (iso_of_day (DayFromYear 1950)))
   \<and> Utils_doyToDate 50 1 = Inr (IsoDate (iso_of_day (DayFromYear 1950)))
   \<and> iso_of_day (DayFromYear 1950) \<noteq> iso_of_day (DayFromYear 50)
   \<and> doyToDate 9999 366 = Inr (Expanded 10000 1)
   \<and> Utils_doyToDate 9999 366 = Inr (Expanded 10000 1)
   \<and> doyToDate 300000 1 = Inl RangeError
   \<and> Utils_doyToDate 300000 1 = Inl RangeError"
proof -
  have d: "DayFromYear 1950 = - 7305" "DayFromYear 50 = - 701265"
    "DayFromYear 9999 = 2932532" "DayFromYear 300000 = 108853222"
    by (simp_all add: DayFromYear_def)
  have y: "YearFromTime (- 7305 * msPerDay) = 1950" "YearFromTime (2932897 * msPerDay) = 10000"
    "MonthFromTime (2932897 * msPerDay) = 0"
    by code_simp+
  have 1: "doyToDate 50 1 = Inr (IsoDate (iso_of_day (DayFromYear 1950)))"
    using doyToDate_eq[of 50 1] y(1)
    by (simp add: d MakeDate_def TimeClip_def msPerDay_def toISOString_date_def iso_prefix_def
        Day_def)
  have 2: "doyToDate 9999 366 = Inr (Expanded 10000 1)"
    using doyToDate_eq[of 9999 366] y(2,3)
    by (simp add: d MakeDate_def TimeClip_def msPerDay_def toISOString_date_def iso_prefix_def)
  have 3: "doyToDate 300000 1 = Inl RangeError"
    using doyToDate_eq[of 300000 1]
    by (simp add: d MakeDate_def TimeClip_def msPerDay_def)
  have 4: "iso_of_day (DayFromYear 1950) \<noteq> iso_of_day (DayFromYear 50)"
    by (simp add: d)
  show ?thesis
    using 1 2 3 4 by (simp add: Utils_doyToDate_eq)
qed

section \<open>The forecast\<close>

text \<open>
  C1. For a non-empty observation history whose last date is a date text not after
  1 December 9999, and any model, \<open>_forecastNext30Days\<close> returns exactly 30
  points. Their dates are the date texts of the 30 calendar days after the last date of
  the history, one after the other, so they increase strictly and none is skipped or
  repeated. Every point is as the specification says, on the rolling history made of the
  input history followed by the earlier points that are not absent: its value is absent
  when the last two values or the mean of the last up-to-3 values of that history are
  absent, and otherwise, when \<open>infer\<close> gives a number for the feature vector, that number
  moved into the interval from -0.1 to 1. So every value that is a number lies between
  -0.1 and 1. The rolling history, the array allocated last, ends as the input history
  followed by the points that are not absent.
\<close>

theorem forecast_30_days:
  assumes "viSeries < length h" and "h ! viSeries \<noteq> []"
    and "date (last (h ! viSeries)) = IsoDate d0"
    and "day_number d0 + 30 < DayFromYear 10000"
  shows "\<exists>out. snd (forecastNext30Days h viSeries wx m) = Inr out
        \<and> length out = 30
        \<and> (\<forall>k<30. date (out ! k) = IsoDate (iso_of_day (day_number d0 + 1 + int k)))
        \<and> (\<forall>j<30. \<forall>k<30. j < k \<longrightarrow>
              Date_of_iso (date (out ! j)) < Date_of_iso (date (out ! k)))
        \<and> (\<forall>k<30. point_as_specified (infer m) wx
              (h ! viSeries @ filter (\<lambda>p. val p \<noteq> None) (take k out)) (out ! k))
        \<and> (\<forall>p\<in>set out. \<forall>v. val p = Some (Num v) \<longrightarrow> - 0.1 \<le> v \<and> v \<le> 1)
        \<and> last (fst (forecastNext30Days h viSeries wx m))
            = h ! viSeries @ filter (\<lambda>p. val p \<noteq> None) out"
proof -
  let ?n = "day_number d0"
  have t0: "Date_of_iso (date (last (h ! viSeries))) = ?n * msPerDay"
    by (simp add: assms(3) Date_of_iso_def MakeDate_def)
  have n: "- 719528 \<le> ?n" "?n + 30 < 2932897"
    using day_number_range[of d0] assms(4) by (simp_all add: DayFromYear_limits)
  have range: "\<bar>Date_of_iso (date (last (h ! viSeries)))\<bar> + 30 * msPerDay \<le> 8640000000000000"
    unfolding t0 using n by (simp add: msPerDay_def)
  obtain out where o: "forecastNext30Days h viSeries wx m =
           (h @ [h ! viSeries @ filter (\<lambda>p. val p \<noteq> None) out], Inr out)"
        "length out = 30"
        "\<forall>k<30. out ! k =
              step_point (infer m) wx (h ! viSeries @ filter (\<lambda>p. val p \<noteq> None) (take k out))
                (iso_prefix (Date_of_iso (date (last (h ! viSeries))) + (1 + int k) * msPerDay))"
    using forecast_result[OF assms(1,2) range, of wx m] by blast
  have tx: "iso_prefix (?n * msPerDay + (1 + int k) * msPerDay)
      = IsoDate (iso_of_day (?n + 1 + int k))" if "k < 30" for k
  proof -
    have e: "?n * msPerDay + (1 + int k) * msPerDay = MakeDate (?n + 1 + int k) 0"
      by (simp add: MakeDate_def algebra_simps)
    have "DayFromYear 0 \<le> ?n + 1 + int k" "?n + 1 + int k < DayFromYear 10000"
      using n that by (simp_all add: DayFromYear_limits)
    then show ?thesis
      unfolding e using iso_prefix_date[of "MakeDate (?n + 1 + int k) 0"] by simp
  qed
  have pt: "out ! k = step_point (infer m) wx
      (h ! viSeries @ filter (\<lambda>p. val p \<noteq> None) (take k out))
      (IsoDate (iso_of_day (?n + 1 + int k)))" if "k < 30" for k
    using o(3) that by (simp add: t0 tx)
  have 1: "\<forall>k<30. date (out ! k) = IsoDate (iso_of_day (?n + 1 + int k))"
    using pt by simp
  have D: "Date_of_iso (date (out ! k)) = (?n + 1 + int k) * msPerDay" if "k < 30" for k
  proof -
    have "- 719528 \<le> ?n + 1 + int k" "?n + 1 + int k < 2932897" using n that by simp_all
    then show ?thesis
      using 1 that by (simp add: Date_of_iso_def MakeDate_def)
  qed
  have 2: "\<forall>j<30. \<forall>k<30. j < k \<longrightarrow>
              Date_of_iso (date (out ! j)) < Date_of_iso (date (out ! k))"
    using D by (simp add: msPerDay_def)
  have 3: "\<forall>k<30. point_as_specified (infer m) wx
              (h ! viSeries @ filter (\<lambda>p. val p \<noteq> None) (take k out)) (out ! k)"
  proof (intro allI impI)
    fix k :: nat assume "k < 30"
    from pt[OF this] show "point_as_specified (infer m) wx
              (h ! viSeries @ filter (\<lambda>p. val p \<noteq> None) (take k out)) (out ! k)"
      by (simp only: step_point_as_specified)
  qed
  have 4: "\<forall>p\<in>set out. \<forall>v. val p = Some (Num v) \<longrightarrow> - 0.1 \<le> v \<and> v \<le> 1"
  proof (intro ballI allI impI)
    fix p v assume p: "p \<in> set out" "val p = Some (Num v)"
    then obtain k where k: "k < 30" "p = out ! k"
      using o(2) by (auto simp: in_set_conv_nth)
    show "- 0.1 \<le> v \<and> v \<le> 1"
      using p(2) pt[OF k(1)] step_point_bounds[of "infer m" wx _ _ v] by (simp add: k(2))
  qed
  show ?thesis
    by (intro exI[of _ out] conjI 1 2 3 4 o(2)) (simp_all add: o(1))
qed

theorem forecast_30_days_witness:
  "(0::nat) < length [[\<lparr>date = IsoDate (iso_of_day 19782), val = Some (Num 0.5)\<rparr>,
                       \<lparr>date = IsoDate (iso_of_day 19798), val = Some (Num 0.6)\<rparr>]]
   \<and> [[\<lparr>date = IsoDate (iso_of_day 19782), val = Some (Num 0.5)\<rparr>,
        \<lparr>date = IsoDate (iso_of_day 19798), val = Some (Num (0.6 :: real))\<rparr>]] ! 0 \<noteq> []
   \<and> day_number (iso_of_day 19798) + 30 < DayFromYear 10000
   \<and> (\<exists>out. snd (forecastNext30Days
                  [[\<lparr>date = IsoDate (iso_of_day 19782), val = Some (Num 0.5)\<rparr>,
                    \<lparr>date = IsoDate (iso_of_day 19798), val = Some (Num 0.6)\<rparr>]] 0 []
                  \<lparr>mtype = ''lin'',
                   infer = (\<lambda>f. case f ! 0 of Num x \<Rightarrow> Num (2 - 4 * x) | NaN \<Rightarrow> NaN),
                   rmse = Num 0\<rparr>) = Inr out
          \<and> length out = 30
          \<and> date (out ! 0) = IsoDate (iso_of_day 19799)
          \<and> date (out ! 1) = IsoDate (iso_of_day 19800)
          \<and> date (out ! 29) = IsoDate (iso_of_day 19828)
          \<and> val (out ! 0) = Some (Num (- 0.1))
          \<and> val (out ! 1) = Some (Num 1)
          \<and> val (out ! 2) = Some (Num (- 0.1)))"
proof -
  define p1 :: point where "p1 = \<lparr>date = IsoDate (iso_of_day 19782), val = Some (Num 0.5)\<rparr>"
  define p2 :: point where "p2 = \<lparr>date = IsoDate (iso_of_day 19798), val = Some (Num 0.6)\<rparr>"
  define g :: "real number list \<Rightarrow> real number"
    where "g = (\<lambda>f. case f ! 0 of Num x \<Rightarrow> Num (2 - 4 * x) | NaN \<Rightarrow> NaN)"
  define m where "m = \<lparr>mtype = ''lin'', infer = g, rmse = Num 0\<rparr>"
  have a: "(0::nat) < length [[p1, p2]]" by simp
  have b: "[[p1, p2]] ! 0 \<noteq> []" by simp
  have c: "date (last ([[p1, p2]] ! 0)) = IsoDate (iso_of_day 19798)" by (simp add: p2_def)
  have d: "day_number (iso_of_day 19798) + 30 < DayFromYear 10000"
    by (simp add: DayFromYear_limits)
  obtain out where o: "snd (forecastNext30Days [[p1, p2]] 0 [] m) = Inr out" "length out = 30"
    "\<forall>k<30. date (out ! k) = IsoDate (iso_of_day (day_number (iso_of_day 19798) + 1 + int k))"
    "\<forall>k<30. point_as_specified (infer m) []
              ([[p1, p2]] ! 0 @ filter (\<lambda>p. val p \<noteq> None) (take k out)) (out ! k)"
    using forecast_30_days[OF a b c d, of "[]" m] by blast
  have dt: "date (out ! 0) = IsoDate (iso_of_day 19799)"
    "date (out ! 1) = IsoDate (iso_of_day 19800)" "date (out ! 29) = IsoDate (iso_of_day 19828)"
    using o(3) by simp_all
  have v: "val p1 = Some (Num 0.5)" "val p2 = Some (Num 0.6)" by (simp_all add: p1_def p2_def)
  have v0: "val (out ! 0) = Some (Num (- 0.1))"
    using o(4)[rule_format, of 0]
    by (simp add: point_as_specified_def spec_step_features_def present_def v m_def g_def)
  have "take 1 out = [out ! 0]"
    using o(2) by (simp add: take_Suc_conv_app_nth)
  then have h1: "[[p1, p2]] ! 0 @ filter (\<lambda>p. val p \<noteq> None) (take 1 out) = [p1, p2, out ! 0]"
    by (simp add: v0)
  have v1: "val (out ! 1) = Some (Num 1)"
    using o(4)[rule_format, of 1] unfolding h1
    by (simp add: v0 point_as_specified_def spec_step_features_def present_def v m_def g_def)
  have "take 2 out = [out ! 0, out ! 1]"
    using o(2) by (simp add: list_eq_iff_nth_eq less_Suc_eq eval_nat_numeral)
  then have h2: "[[p1, p2]] ! 0 @ filter (\<lambda>p. val p \<noteq> None) (take 2 out)
      = [p1, p2, out ! 0, out ! 1]"
    by (simp add: v0 v1[unfolded One_nat_def])
  have v2: "val (out ! 2) = Some (Num (- 0.1))"
    using o(4)[rule_format, of 2] unfolding h2
    by (simp add: v0 v1[unfolded One_nat_def] point_as_specified_def spec_step_features_def
        present_def v m_def g_def)
  show ?thesis
    using a b d o(1,2) dt v0 v1 v2 unfolding p1_def p2_def m_def g_def by blast
qed

text \<open>
  For a model whose \<open>infer\<close> gives NaN, the value of the first point is NaN, which is not
  absent and lies in no interval. For a history that ends on 30 December 9999, the dates of
  the second and the third point are both \<open>+010000-01\<close>.
\<close>

theorem forecast_nan_and_year_10000:
  "map val (take 1 (projr (snd (forecastNext30Days
       [[\<lparr>date = IsoDate (iso_of_day 19782), val = Some (Num 0.5)\<rparr>,
         \<lparr>date = IsoDate (iso_of_day 19798), val = Some (Num 0.6)\<rparr>]] 0 []
       \<lparr>mtype = ''tf'', infer = (\<lambda>f. NaN), rmse = Num 0\<rparr>)))) = [Some NaN]
   \<and> map date (take 3 (projr (snd (forecastNext30Days
       [[\<lparr>date = IsoDate (iso_of_day 2932879), val = Some (Num 0.5)\<rparr>,
         \<lparr>date = IsoDate (iso_of_day 2932895), val = Some (Num 0.6)\<rparr>]] 0 []
       \<lparr>mtype = ''tf'', infer = (\<lambda>f. Num 0), rmse = Num 0\<rparr>))))
       = [IsoDate (iso_of_day 2932896), Expanded 10000 1, Expanded 10000 1]"
proof -
  define p1 :: point where "p1 = \<lparr>date = IsoDate (iso_of_day 19782), val = Some (Num 0.5)\<rparr>"
  define p2 :: point where "p2 = \<lparr>date = IsoDate (iso_of_day 19798), val = Some (Num 0.6)\<rparr>"
  define q1 :: point where "q1 = \<lparr>date = IsoDate (iso_of_day 2932879), val = Some (Num 0.5)\<rparr>"
  define q2 :: point where "q2 = \<lparr>date = IsoDate (iso_of_day 2932895), val = Some (Num 0.6)\<rparr>"
  define m1 where "m1 = \<lparr>mtype = ''tf'', infer = (\<lambda>f :: real number list. NaN :: real number),
    rmse = Num 0\<rparr>"
  define m2 where "m2 = \<lparr>mtype = ''tf'', infer = (\<lambda>f :: real number list. Num (0 :: real)),
    rmse = Num 0\<rparr>"
  have a: "(0::nat) < length [[p1, p2]]" "(0::nat) < length [[q1, q2]]" by simp_all
  have b: "[[p1, p2]] ! 0 \<noteq> []" "[[q1, q2]] ! 0 \<noteq> []" by simp_all
  have tp: "Date_of_iso (date (last ([[p1, p2]] ! 0))) = 19798 * msPerDay"
    by (simp add: p2_def Date_of_iso_def MakeDate_def)
  have tq: "Date_of_iso (date (last ([[q1, q2]] ! 0))) = 2932895 * msPerDay"
    by (simp add: q2_def Date_of_iso_def MakeDate_def)
  have rp: "\<bar>Date_of_iso (date (last ([[p1, p2]] ! 0)))\<bar> + 30 * msPerDay \<le> 8640000000000000"
    unfolding tp by (simp add: msPerDay_def)
  have rq: "\<bar>Date_of_iso (date (last ([[q1, q2]] ! 0)))\<bar> + 30 * msPerDay \<le> 8640000000000000"
    unfolding tq by (simp add: msPerDay_def)
  obtain out where o: "forecastNext30Days [[p1, p2]] 0 [] m1 =
           ([[p1, p2]] @ [[[p1, p2]] ! 0 @ filter (\<lambda>p. val p \<noteq> None) out], Inr out)"
        "length out = 30"
        "\<forall>k<30. out ! k =
              step_point (infer m1) [] ([[p1, p2]] ! 0 @ filter (\<lambda>p. val p \<noteq> None) (take k out))
                (iso_prefix (Date_of_iso (date (last ([[p1, p2]] ! 0))) + (1 + int k) * msPerDay))"
    using forecast_result[OF a(1) b(1) rp, of "[]" m1] by blast
  have "val (out ! 0) = Some NaN"
    using o(3)[rule_format, of 0]
    by (simp add: step_point_def spec_step_features_def present_def p1_def p2_def m1_def
        Math_max_def Math_min_def)
  then have 1: "map val (take 1 (projr (snd (forecastNext30Days [[p1, p2]] 0 [] m1)))) = [Some NaN]"
    using o(2) by (simp add: o(1) take_Suc_conv_app_nth)
  obtain fc where f: "forecastNext30Days [[q1, q2]] 0 [] m2 =
           ([[q1, q2]] @ [[[q1, q2]] ! 0 @ filter (\<lambda>p. val p \<noteq> None) fc], Inr fc)"
        "length fc = 30"
        "\<forall>k<30. fc ! k =
              step_point (infer m2) [] ([[q1, q2]] ! 0 @ filter (\<lambda>p. val p \<noteq> None) (take k fc))
                (iso_prefix (Date_of_iso (date (last ([[q1, q2]] ! 0))) + (1 + int k) * msPerDay))"
    using forecast_result[OF a(2) b(2) rq, of "[]" m2] by blast
  have y: "YearFromTime (2932896 * msPerDay) = 9999" "YearFromTime (2932897 * msPerDay) = 10000"
    "YearFromTime (2932898 * msPerDay) = 10000"
    "MonthFromTime (2932897 * msPerDay) = 0" "MonthFromTime (2932898 * msPerDay) = 0"
    by code_simp+
  have ip: "iso_prefix (2932896 * msPerDay) = IsoDate (iso_of_day 2932896)"
    "iso_prefix (2932897 * msPerDay) = Expanded 10000 1"
    "iso_prefix (2932898 * msPerDay) = Expanded 10000 1"
    using y by (simp_all add: iso_prefix_def Day_def msPerDay_def)
  have e: "2932895 * msPerDay + (1 + int 0) * msPerDay = 2932896 * msPerDay"
    "2932895 * msPerDay + (1 + int 1) * msPerDay = 2932897 * msPerDay"
    "2932895 * msPerDay + (1 + int 2) * msPerDay = 2932898 * msPerDay"
    by (simp_all add: msPerDay_def)
  have d0: "date (fc ! 0) = IsoDate (iso_of_day 2932896)"
    using f(3)[rule_format, of 0] unfolding tq e by (simp add: ip)
  have d1: "date (fc ! 1) = Expanded 10000 1"
    using f(3)[rule_format, of 1] unfolding tq e by (simp add: ip)
  have d2: "date (fc ! 2) = Expanded 10000 1"
    using f(3)[rule_format, of 2] unfolding tq e by (simp add: ip)
  have "take 3 fc = [fc ! 0, fc ! 1, fc ! 2]"
    using f(2) by (simp add: list_eq_iff_nth_eq less_Suc_eq eval_nat_numeral)
  then have 2: "map date (take 3 (projr (snd (forecastNext30Days [[q1, q2]] 0 [] m2))))
       = [IsoDate (iso_of_day 2932896), Expanded 10000 1, Expanded 10000 1]"
    by (simp add: f(1) d0 d1[unfolded One_nat_def] d2)
  show ?thesis
    using 1 2 unfolding p1_def p2_def q1_def q2_def m1_def m2_def by simp
qed

text \<open>
  C9. The forecaster changes no array that existed before the call: the rolling history
  is a new array, so the input sequence has the same entries afterwards, also when the
  call throws. The history that a finished run plots is the one that was fetched.
\<close>

theorem forecast_keeps_input:
  assumes "viSeries < length h"
  shows "take (length h) (fst (forecastNext30Days h viSeries wx m)) = h
       \<and> fst (forecastNext30Days h viSeries wx m) ! viSeries = h ! viSeries
       \<and> length (fst (forecastNext30Days h viSeries wx m)) = length h + 1
       \<and> (\<forall>n r hist fc. run tf ef lf vi wx = Done n r hist fc \<longrightarrow> hist = map as_point vi)"
proof -
  from forecast_frame[OF assms, of wx m]
  obtain x where x: "fst (forecastNext30Days h viSeries wx m) = h @ [x]"
    by blast
  have 2: "fst (forecastNext30Days [map as_point vi] 0 wx m') ! 0 = map as_point vi" for m'
    using forecast_frame[of 0 "[map as_point vi]" wx m'] by auto
  have 3: "hist = map as_point vi" if "run tf ef lf vi wx = Done n r hist fc" for n r hist fc
    using that 2 by (auto simp: run_def Let_def split: if_splits sum.splits)
  show ?thesis
    using assms 3 by (auto simp: x nth_append)
qed

theorem forecast_keeps_input_witness:
  "(0::nat) < length [[\<lparr>date = IsoDate (iso_of_day 19782), val = Some (Num 0.5)\<rparr>,
                       \<lparr>date = IsoDate (iso_of_day 19798), val = Some (Num 0.6)\<rparr>]]
   \<and> fst (forecastNext30Days
            [[\<lparr>date = IsoDate (iso_of_day 19782), val = Some (Num 0.5)\<rparr>,
              \<lparr>date = IsoDate (iso_of_day 19798), val = Some (Num 0.6)\<rparr>]] 0 []
            \<lparr>mtype = ''lin'', infer = (\<lambda>f. Num 2), rmse = Num 0\<rparr>) ! 0
       = [\<lparr>date = IsoDate (iso_of_day 19782), val = Some (Num 0.5)\<rparr>,
          \<lparr>date = IsoDate (iso_of_day 19798), val = Some (Num 0.6)\<rparr>]
   \<and> length (fst (forecastNext30Days
            [[\<lparr>date = IsoDate (iso_of_day 19782), val = Some (Num 0.5)\<rparr>,
              \<lparr>date = IsoDate (iso_of_day 19798), val = Some (Num 0.6)\<rparr>]] 0 []
            \<lparr>mtype = ''lin'', infer = (\<lambda>f. Num 2), rmse = Num 0\<rparr>)) = 2"
proof -
  let ?h = "[[\<lparr>date = IsoDate (iso_of_day 19782), val = Some (Num 0.5)\<rparr>,
              \<lparr>date = IsoDate (iso_of_day 19798), val = Some (Num (0.6::real))\<rparr>]]"
  have a: "(0::nat) < length ?h" by simp
  show ?thesis
    using a forecast_keeps_input[OF a, of "[]"
        "\<lparr>mtype = ''lin'', infer = (\<lambda>f. Num 2), rmse = Num 0\<rparr>"]
    by simp
qed

text \<open>
  C2. The weather proxies of forecast.js on a mapping with two dates: the temperature
  proxy is the mean 13 of 12 and 14, and the precipitation proxy is the mean 5 of 4 and 6,
  not their sum 10, which is what the copy of the forecaster in app.js computes.
\<close>

theorem pConst_is_mean_not_sum:
  "tConst [(iso_of_day 19782, \<lparr>tMean = Some 12, pSum = Some 4\<rparr>),
           (iso_of_day 19798, \<lparr>tMean = Some 14, pSum = Some 6\<rparr>)] = 13
   \<and> pConst [(iso_of_day 19782, \<lparr>tMean = Some 12, pSum = Some 4\<rparr>),
             (iso_of_day 19798, \<lparr>tMean = Some 14, pSum = Some 6\<rparr>)] = 5
   \<and> pConst_app [(iso_of_day 19782, \<lparr>tMean = Some 12, pSum = Some 4\<rparr>),
                 (iso_of_day 19798, \<lparr>tMean = Some 14, pSum = Some 6\<rparr>)] = 10
   \<and> tConst [] = 10 \<and> pConst [] = 10"
  by (simp add: tConst_def pConst_def pConst_app_def wx_recent_def slice_last_def present_def)

section \<open>The feature builder\<close>



section \<open>The sample gate and the configuration of a run\<close>

text \<open>
  C5. A run whose dataset has fewer than 24 samples ends before training with the message
  for insufficient samples (a run with no observation at all ends earlier, with the message
  for no history): no model and no forecast exist. With 24 samples or more the run trains:
  it ends as the trainer does when the trainer throws, and with the plot of a forecast
  and the model's training error when the trainer returns a model.
\<close>

theorem run_sample_gate:
  fixes vi :: "observation list" and wx :: weather and ef :: "int field" and lf :: "real field"
  defines "ds \<equiv> buildDataset vi wx"
  defines "cfg \<equiv> \<lparr>epochs = run_epochs ef, lr = run_lr lf\<rparr>"
  shows "(length (fst ds) < 24 \<longrightarrow>
            run tf ef lf vi wx = (if vi = [] then NoHistory else InsufficientSamples))
       \<and> (24 \<le> length (fst ds) \<longrightarrow>
            (\<forall>e. trainModel tf ds cfg = Inl e \<longrightarrow> run tf ef lf vi wx = Failed e)
          \<and> (\<forall>m. trainModel tf ds cfg = Inr m \<longrightarrow>
                (\<exists>hist fc. run tf ef lf vi wx = Done (length (fst ds)) (rmse m) hist fc)))"
proof -
  have ne: "24 \<le> length (fst ds) \<Longrightarrow> vi \<noteq> []"
    by (auto simp: ds_def buildDataset_Nil)
  show ?thesis
  proof (intro conjI impI allI)
    assume "length (fst ds) < 24"
    then show "run tf ef lf vi wx = (if vi = [] then NoHistory else InsufficientSamples)"
      by (simp add: run_def Let_def ds_def)
  next
    fix e assume "24 \<le> length (fst ds)" "trainModel tf ds cfg = Inl e"
    then show "run tf ef lf vi wx = Failed e"
      using ne by (simp add: run_def Let_def ds_def cfg_def)
  next
    fix m assume a: "24 \<le> length (fst ds)" "trainModel tf ds cfg = Inr m"
    from ne[OF a(1)] obtain out where
      "snd (forecastNext30Days [map as_point vi] 0 wx m) = Inr out"
      using run_forecast_returns[of vi wx m] by auto
    then show "\<exists>hist fc. run tf ef lf vi wx = Done (length (fst ds)) (rmse m) hist fc"
      using a ne by (simp add: run_def Let_def ds_def cfg_def)
  qed
qed

theorem run_sample_gate_witness:
  "length (fst (buildDataset (map (\<lambda>k. \<lparr>date = iso_of_day (16 * int k), val = Some 0.5\<rparr>) [0..<25])
       (map (\<lambda>k. (iso_of_day (16 * int k), \<lparr>tMean = Some 10, pSum = Some 5\<rparr>)) [0..<25]))) = 23
   \<and> run (Some (\<lambda>x y c r. Num 0)) NoValue NoValue
        (map (\<lambda>k. \<lparr>date = iso_of_day (16 * int k), val = Some 0.5\<rparr>) [0..<25])
        (map (\<lambda>k. (iso_of_day (16 * int k), \<lparr>tMean = Some 10, pSum = Some 5\<rparr>)) [0..<25]) = InsufficientSamples
   \<and> length (fst (buildDataset (map (\<lambda>k. \<lparr>date = iso_of_day (16 * int k), val = Some 0.5\<rparr>) [0..<26])
       (map (\<lambda>k. (iso_of_day (16 * int k), \<lparr>tMean = Some 10, pSum = Some 5\<rparr>)) [0..<26]))) = 24
   \<and> (\<exists>r hist fc. run (Some (\<lambda>x y c r. Num 0)) NoValue NoValue
        (map (\<lambda>k. \<lparr>date = iso_of_day (16 * int k), val = Some 0.5\<rparr>) [0..<26])
        (map (\<lambda>k. (iso_of_day (16 * int k), \<lparr>tMean = Some 10, pSum = Some 5\<rparr>)) [0..<26]) = Done 24 r hist fc)"
proof -
  define obs where "obs n = map (\<lambda>k. \<lparr>date = iso_of_day (16 * int k), val = Some (0.5::real)\<rparr>) [0..<n]" for n
  define wx where "wx n = map (\<lambda>k. (iso_of_day (16 * int k), \<lparr>tMean = Some (10::real), pSum = Some (5::real)\<rparr>)) [0..<n]" for n
  define tf :: "tf_backend option" where "tf = Some (\<lambda>x y c r. Num 0)"
  have d: "distinct (map date (obs n))" if "n \<le> 26" for n
  proof -
    have "inj_on (\<lambda>k. iso_of_day (16 * int k)) {0..<n}"
    proof (rule inj_onI)
      fix x y assume "x \<in> {0..<n}" "y \<in> {0..<n}"
        and e: "iso_of_day (16 * int x) = iso_of_day (16 * int y)"
      then have "x < 26" "y < 26" using that by simp_all
      then show "x = y" using e by simp
    qed
    then show ?thesis by (simp add: obs_def comp_def distinct_map)
  qed
  have "val ob = Some (0.5::real)" if "ob \<in> set (obs n)" for ob n
    using that by (auto simp: obs_def)
  then have v: "\<forall>ob\<in>set (obs n). val ob \<noteq> None" for n by simp
  have w: "\<forall>ob\<in>set (obs n). tMean (wx_at (wx n) (date ob)) \<noteq> None
                           \<and> pSum (wx_at (wx n) (date ob)) \<noteq> None" for n
  proof
    fix ob assume "ob \<in> set (obs n)"
    then obtain k where k: "k \<in> set [0..<n]" "date ob = iso_of_day (16 * int k)"
      by (auto simp: obs_def)
    have "map_of (wx n) (iso_of_day (16 * int k)) = Some \<lparr>tMean = Some 10, pSum = Some 5\<rparr>"
      unfolding wx_def using k(1) by (rule map_of_const_map[where f = "\<lambda>k. iso_of_day (16 * int k)"])
    then show "tMean (wx_at (wx n) (date ob)) \<noteq> None \<and> pSum (wx_at (wx n) (date ob)) \<noteq> None"
      by (simp add: wx_at_def k(2))
  qed
  have len: "length (fst (buildDataset (obs n) (wx n))) = n - 2" if "n \<le> 26" for n
    using buildDataset_complete[OF d[OF that] v w] by (simp add: obs_def)
  have ne: "obs 25 \<noteq> []" "fst (buildDataset (obs 26) (wx 26)) \<noteq> []"
    using len[of 26] by (auto simp: obs_def)
  have l23: "length (fst (buildDataset (obs 25) (wx 25))) = 23" using len[of 25] by simp
  have l24: "length (fst (buildDataset (obs 26) (wx 26))) = 24" using len[of 26] by simp
  have g1: "run tf NoValue NoValue (obs 25) (wx 25) = InsufficientSamples"
    using run_sample_gate[of "obs 25" "wx 25" tf NoValue NoValue] l23 ne by simp
  obtain m where m: "trainModel tf (buildDataset (obs 26) (wx 26))
      \<lparr>epochs = run_epochs NoValue, lr = run_lr NoValue\<rparr> = Inr m"
    using ne(2) by (simp add: trainModel_def tf_def Let_def)
  have g2: "\<exists>r hist fc. run tf NoValue NoValue (obs 26) (wx 26) = Done 24 r hist fc"
    using run_sample_gate[of "obs 26" "wx 26" tf NoValue NoValue] l24 m by auto
  show ?thesis
    using l23 l24 g1 g2 unfolding obs_def wx_def tf_def by blast
qed

text \<open>
  C7. The default of each configuration field replaces a missing or empty text, not the
  parsed number. For a field whose text does not parse as a number, such as \<open>abc\<close> or
  \<open>.5\<close> for the epochs, \<open>parseInt\<close> and \<open>parseFloat\<close> give NaN, which \<open>Math.min\<close> and
  \<open>Math.max\<close> pass on: the epochs and the learning rate of the run are NaN, inside no
  interval, and these are the values the trainer is given. On the same text the page
  limit of app.js, which puts the default after the parse, is its default 5.
\<close>

theorem config_not_a_number:
  "run_epochs NotANumber = NaN \<and> run_lr NotANumber = NaN
   \<and> photos_max_pages NotANumber = 5"
  by (simp add: run_epochs_def run_lr_def Math_max_def Math_min_def parseInt_or_def
      parseFloat_or_def photos_max_pages_def Utils_clamp_def)

section \<open>Standardization\<close>

text \<open>
  C8. The standard deviation that the trainer computes for a column with at least one
  entry is floored and never zero, so for every value \<open>v\<close> and mean \<open>m\<close> un-standardizing
  the standardized value gives \<open>v\<close> back; this holds for the feature columns and for the
  targets, which use the same two functions.
\<close>

theorem standardize_roundtrip:
  assumes "col \<noteq> []"
  shows "col_sd col \<noteq> 0
       \<and> unstandardize m (col_sd col) (standardize m (col_sd col) v) = v
       \<and> unstandardize (col_mean col) (col_sd col)
            (standardize (col_mean col) (col_sd col) v) = v"
  using col_sd_nonzero[of col] by (simp add: unstandardize_def standardize_def)

theorem standardize_roundtrip_witness:
  "[1, 2, 3] \<noteq> ([] :: real list) \<and> col_mean [1, 2, 3] = 2 \<and> col_sd [1, 2, 3] = 1
   \<and> col_sd [4, 4, 4] = 1
   \<and> unstandardize 2 (col_sd [1, 2, 3]) (standardize 2 (col_sd [1, 2, 3]) 5) = 5"
proof -
  have a: "[1, 2, 3] \<noteq> ([] :: real list)" by simp
  have b: "col_mean [1, 2, 3] = 2" "col_sd [1, 2, 3] = 1" "col_sd [4, 4, 4] = 1"
    by (simp_all add: col_mean_def col_sd_def fl_defs)
  show ?thesis
    using a b standardize_roundtrip[OF a, of 2 5] by simp
qed


section \<open>Matrix inversion\<close>

text \<open>
  C4. For a square matrix, in every round \<open>i\<close> of \<open>_invSym\<close> that is reached the pivot row
  \<open>p\<close> is a row from \<open>i\<close> on whose entry in column \<open>i\<close> is largest in absolute value, and
  the round throws \<open>Singular matrix\<close> exactly when this largest absolute value is below
  \<open>1e-8\<close>. Otherwise the round exchanges rows \<open>i\<close> and \<open>p\<close> of both matrices, divides row
  \<open>i\<close> of both by the pivot, and subtracts from every other row of both the new row \<open>i\<close>
  times that row's entry in column \<open>i\<close>; afterwards the columns up to \<open>i\<close> of the left
  matrix are those of the identity. \<open>_invSym\<close> throws exactly when some round does, and
  only \<open>Singular matrix\<close>; when it returns, the product of its result with the matrix is
  the identity. It throws on the 2 by 2 zero matrix. The linear trainer throws what
  \<open>_invSym\<close> throws, and the run then ends with that error.
\<close>

theorem invSym_pivoting:
  assumes "square n M"
  shows "(\<forall>i<n. \<forall>A I. gj_rounds n i (M, identity n) = Inr (A, I) \<longrightarrow>
            i \<le> pivot_row A i n \<and> pivot_row A i n < n
          \<and> (\<forall>r. i \<le> r \<and> r < n \<longrightarrow> \<bar>A ! r ! i\<bar> \<le> \<bar>A ! pivot_row A i n ! i\<bar>)
          \<and> (gj_step n i (A, I) = Inl (Error ''Singular matrix'')
                \<longleftrightarrow> \<bar>A ! pivot_row A i n ! i\<bar> < 1 / 10 ^ 8)
          \<and> (\<forall>A' I'. gj_step n i (A, I) = Inr (A', I') \<longrightarrow>
                (\<forall>k<n. A' ! i ! k = A ! pivot_row A i n ! k * (1 / (A ! pivot_row A i n ! i))
                      \<and> I' ! i ! k = I ! pivot_row A i n ! k * (1 / (A ! pivot_row A i n ! i)))
              \<and> (\<forall>r<n. r \<noteq> i \<longrightarrow> (\<forall>k<n.
                    A' ! r ! k = A ! swapped i (pivot_row A i n) r ! k
                                   - A ! swapped i (pivot_row A i n) r ! i * A' ! i ! k
                  \<and> I' ! r ! k = I ! swapped i (pivot_row A i n) r ! k
                                   - A ! swapped i (pivot_row A i n) r ! i * I' ! i ! k))
              \<and> (\<forall>r<n. \<forall>c\<le>i. A' ! r ! c = (if r = c then 1 else 0))))
       \<and> (\<forall>e. invSym M = Inl e \<longleftrightarrow>
              e = Error ''Singular matrix'' \<and>
              (\<exists>i<n. \<exists>A I. gj_rounds n i (M, identity n) = Inr (A, I)
                  \<and> \<bar>A ! pivot_row A i n ! i\<bar> < 1 / 10 ^ 8))
       \<and> (\<forall>W. invSym M = Inr W \<longrightarrow> square n W \<and> matMul W M = identity n)
       \<and> invSym [[0, 0], [0, 0]] = Inl (Error ''Singular matrix'')
       \<and> (\<forall>X Y cfg e. X \<noteq> [] \<and> invSym (train_XTX X) = Inl e \<longrightarrow>
              trainModel None (X, Y) cfg = Inl e)
       \<and> (\<forall>vi wx ef lf e. 24 \<le> length (fst (buildDataset vi wx))
              \<and> trainModel None (buildDataset vi wx)
                   \<lparr>epochs = run_epochs ef, lr = run_lr lf\<rparr> = Inl e \<longrightarrow>
              run None ef lf vi wx = Failed e)"
proof -
  have n: "length M = n" using assms by (rule squareL)
  have lin0: "M ! r ! c = (\<Sum>k<n. identity n ! r ! k * M ! k ! c)" if "r < n" "c < n" for r c
    using that by (simp add: identity_nth sum_delta_mult)
  have a: "i \<le> pivot_row A i n \<and> pivot_row A i n < n
          \<and> (\<forall>r. i \<le> r \<and> r < n \<longrightarrow> \<bar>A ! r ! i\<bar> \<le> \<bar>A ! pivot_row A i n ! i\<bar>)
          \<and> (gj_step n i (A, I) = Inl (Error ''Singular matrix'')
                \<longleftrightarrow> \<bar>A ! pivot_row A i n ! i\<bar> < 1 / 10 ^ 8)
          \<and> (\<forall>A' I'. gj_step n i (A, I) = Inr (A', I') \<longrightarrow>
                (\<forall>k<n. A' ! i ! k = A ! pivot_row A i n ! k * (1 / (A ! pivot_row A i n ! i))
                      \<and> I' ! i ! k = I ! pivot_row A i n ! k * (1 / (A ! pivot_row A i n ! i)))
              \<and> (\<forall>r<n. r \<noteq> i \<longrightarrow> (\<forall>k<n.
                    A' ! r ! k = A ! swapped i (pivot_row A i n) r ! k
                                   - A ! swapped i (pivot_row A i n) r ! i * A' ! i ! k
                  \<and> I' ! r ! k = I ! swapped i (pivot_row A i n) r ! k
                                   - A ! swapped i (pivot_row A i n) r ! i * I' ! i ! k))
              \<and> (\<forall>r<n. \<forall>c\<le>i. A' ! r ! c = (if r = c then 1 else 0)))"
    if i: "i < n" and r: "gj_rounds n i (M, identity n) = Inr (A, I)" for i A I
  proof -
    have sq: "square n A" "square n I"
      using gj_rounds_inv[OF assms identity_square lin0 _ r] i by auto
    have p: "i \<le> pivot_row A i n" "pivot_row A i n < n"
      "\<forall>r. i \<le> r \<and> r < n \<longrightarrow> \<bar>A ! r ! i\<bar> \<le> \<bar>A ! pivot_row A i n ! i\<bar>"
      using pivot_row_props[OF i, of A] by simp_all
    have f: "gj_step n i (A, I) = Inl (Error ''Singular matrix'')
                \<longleftrightarrow> \<bar>A ! pivot_row A i n ! i\<bar> < 1 / 10 ^ 8"
      by (simp add: gj_step_fails)
    have s: "\<forall>A' I'. gj_step n i (A, I) = Inr (A', I') \<longrightarrow>
                (\<forall>k<n. A' ! i ! k = A ! pivot_row A i n ! k * (1 / (A ! pivot_row A i n ! i))
                      \<and> I' ! i ! k = I ! pivot_row A i n ! k * (1 / (A ! pivot_row A i n ! i)))
              \<and> (\<forall>r<n. r \<noteq> i \<longrightarrow> (\<forall>k<n.
                    A' ! r ! k = A ! swapped i (pivot_row A i n) r ! k
                                   - A ! swapped i (pivot_row A i n) r ! i * A' ! i ! k
                  \<and> I' ! r ! k = I ! swapped i (pivot_row A i n) r ! k
                                   - A ! swapped i (pivot_row A i n) r ! i * I' ! i ! k))
              \<and> (\<forall>r<n. \<forall>c\<le>i. A' ! r ! c = (if r = c then 1 else 0))"
    proof (intro allI impI)
      fix A' I' assume st: "gj_step n i (A, I) = Inr (A', I')"
      have nx: "gj_rounds n (Suc i) (M, identity n) = Inr (A', I')"
        by (simp add: gj_rounds_Suc r st)
      have "\<forall>r<n. \<forall>c<Suc i. A' ! r ! c = (if r = c then 1 else 0)"
        using gj_rounds_inv[OF assms identity_square lin0 _ nx] i by auto
      then have u: "\<forall>r<n. \<forall>c\<le>i. A' ! r ! c = (if r = c then 1 else 0)"
        by (simp add: less_Suc_eq_le)
      note el = gj_step_eliminates[OF sq i st]
      show "(\<forall>k<n. A' ! i ! k = A ! pivot_row A i n ! k * (1 / (A ! pivot_row A i n ! i))
                      \<and> I' ! i ! k = I ! pivot_row A i n ! k * (1 / (A ! pivot_row A i n ! i)))
              \<and> (\<forall>r<n. r \<noteq> i \<longrightarrow> (\<forall>k<n.
                    A' ! r ! k = A ! swapped i (pivot_row A i n) r ! k
                                   - A ! swapped i (pivot_row A i n) r ! i * A' ! i ! k
                  \<and> I' ! r ! k = I ! swapped i (pivot_row A i n) r ! k
                                   - A ! swapped i (pivot_row A i n) r ! i * I' ! i ! k))
              \<and> (\<forall>r<n. \<forall>c\<le>i. A' ! r ! c = (if r = c then 1 else 0))"
        by (intro conjI el[THEN conjunct1] el[THEN conjunct2] u)
    qed
    show ?thesis
      by (intro conjI p f s)
  qed
  have b: "invSym M = Inl e \<longleftrightarrow>
              e = Error ''Singular matrix'' \<and>
              (\<exists>i<n. \<exists>A I. gj_rounds n i (M, identity n) = Inr (A, I)
                  \<and> \<bar>A ! pivot_row A i n ! i\<bar> < 1 / 10 ^ 8)" for e
    using invSym_fails[of M e] by (simp add: n)
  have c: "invSym [[0, 0], [0, 0]] = Inl (Error ''Singular matrix'')"
    by (simp add: invSym_def gj_rounds_def gj_step_def pivot_row_def Let_def identity_def
        upt_rec_numeral)
  have d: "trainModel None (X, Y) cfg = Inl e" if "X \<noteq> []" "invSym (train_XTX X) = Inl e"
    for X Y cfg e
    using that by (simp add: trainModel_linear)
  have w: "square n W \<and> matMul W M = identity n" if "invSym M = Inr W" for W
    using invSym_inverse(1,3)[OF assms that] by simp
  show ?thesis
  proof (intro conjI)
    show "\<forall>e. invSym M = Inl e \<longleftrightarrow>
              e = Error ''Singular matrix'' \<and>
              (\<exists>i<n. \<exists>A I. gj_rounds n i (M, identity n) = Inr (A, I)
                  \<and> \<bar>A ! pivot_row A i n ! i\<bar> < 1 / 10 ^ 8)"
      by (intro allI) (rule b)
    show "\<forall>W. invSym M = Inr W \<longrightarrow> square n W \<and> matMul W M = identity n"
      using w by blast
    show "invSym [[0, 0], [0, 0]] = Inl (Error ''Singular matrix'')" by (rule c)
    show "\<forall>X Y cfg e. X \<noteq> [] \<and> invSym (train_XTX X) = Inl e \<longrightarrow>
              trainModel None (X, Y) cfg = Inl e"
      using d by blast
    show "\<forall>vi wx ef lf e. 24 \<le> length (fst (buildDataset vi wx))
              \<and> trainModel None (buildDataset vi wx)
                   \<lparr>epochs = run_epochs ef, lr = run_lr lf\<rparr> = Inl e \<longrightarrow>
              run None ef lf vi wx = Failed e"
      using run_training_fails[of _ _ None] by blast
  qed (intro allI impI, rule a)
qed

theorem invSym_pivoting_witness:
  "square 2 [[2, 1], [1, 2]]
   \<and> pivot_row [[2, 1], [1, 2]] 0 2 = 0
   \<and> gj_step 2 0 ([[2, 1], [1, 2]], identity 2)
       = Inr ([[1, 1 / 2], [0, 3 / 2]], [[1 / 2, 0], [- 1 / 2, 1]])
   \<and> [[1, 1 / 2], [0, 3 / 2 :: real]] ! 1 ! 1
       = [[2, 1], [1, 2]] ! swapped 0 (pivot_row [[2, 1], [1, 2]] 0 2) 1 ! 1
         - [[2, 1], [1, 2]] ! swapped 0 (pivot_row [[2, 1], [1, 2]] 0 2) 1 ! 0
           * [[1, 1 / 2], [0, 3 / 2]] ! 0 ! 1
   \<and> invSym [[2, 1], [1, 2]] = Inr [[2 / 3, - 1 / 3], [- 1 / 3, 2 / 3]]
   \<and> matMul [[2 / 3, - 1 / 3], [- 1 / 3, 2 / 3]] [[2, 1], [1, 2]] = identity 2
   \<and> pivot_row [[0, 2], [1, 0]] 0 2 = 1
   \<and> gj_step 2 0 ([[0, 2], [1, 0]], identity 2) = Inr ([[1, 0], [0, 2]], [[0, 1], [1, 0]])
   \<and> invSym [[0, 2], [1, 0]] = Inr [[0, 1], [1 / 2, 0]]
   \<and> invSym [[0, 0], [0, 0]] = Inl (Error ''Singular matrix'')"
proof -
  let ?M = "[[2, 1], [1, 2 :: real]]"
  let ?A1 = "[[1, 1 / 2], [0, 3 / 2 :: real]]"
  let ?I1 = "[[1 / 2, 0], [- 1 / 2, 1 :: real]]"
  let ?W = "[[2 / 3, - 1 / 3], [- 1 / 3, 2 / 3 :: real]]"
  have h: "square 2 ?M" by (simp add: square_def)
  have p0: "pivot_row ?M 0 (Suc (Suc 0)) = 0"
    by (simp add: pivot_row_def upt_conv_Cons)
  then have p1: "pivot_row ?M 0 2 = 0" by (simp add: numeral_2_eq_2)
  have s1: "gj_step 2 0 (?M, identity 2) = Inr (?A1, ?I1)"
    by (simp add: gj_step_def pivot_row_def Let_def identity_def upt_conv_Cons swap_rows_def
        scale_row_def sub_row_def)
  have iv: "invSym ?M = Inr ?W"
    by (simp add: invSym_def gj_rounds_def gj_step_def pivot_row_def Let_def identity_def
      upt_rec_numeral swap_rows_def scale_row_def sub_row_def)
  have q0: "pivot_row [[0, 2], [1, 0 :: real]] 0 (Suc (Suc 0)) = Suc 0"
    by (simp add: pivot_row_def upt_conv_Cons)
  then have q1: "pivot_row [[0, 2], [1, 0 :: real]] 0 2 = 1" by (simp add: numeral_2_eq_2)
  have "gj_step (Suc (Suc 0)) 0 ([[0, 2], [1, 0]], identity (Suc (Suc 0)))
      = Inr ([[1, 0], [0, 2]], [[0, 1], [1, 0]])"
    by (simp add: gj_step_def q0 Let_def identity_def swap_rows_def scale_row_def sub_row_def)
  then have s2: "gj_step 2 0 ([[0, 2], [1, 0]], identity 2)
      = Inr ([[1, 0], [0, 2]], [[0, 1], [1, 0]])"
    by (simp add: numeral_2_eq_2)
  have i2: "invSym [[0, 2], [1, 0]] = Inr [[0, 1], [1 / 2, 0]]"
    by (simp add: invSym_def gj_rounds_def gj_step_def pivot_row_def Let_def identity_def
      upt_rec_numeral swap_rows_def scale_row_def sub_row_def)
  have r0: "gj_rounds 2 0 (?M, identity 2) = Inr (?M, identity 2)" by simp
  have z: "(0::nat) < 2" "(1::nat) < 2" "(1::nat) \<noteq> 0" by simp_all
  note t = invSym_pivoting[OF h, THEN conjunct1, rule_format, OF z(1) r0]
  note u = t[THEN conjunct2, THEN conjunct2, THEN conjunct2, THEN conjunct2, rule_format, OF s1]
  note v = u[THEN conjunct2, THEN conjunct1, rule_format, OF z(2) z(3) z(2), THEN conjunct1]
  have mm: "matMul ?W ?M = identity 2"
    using invSym_pivoting[OF h, THEN conjunct2, THEN conjunct2, THEN conjunct1, rule_format, OF iv]
    by (rule conjunct2)
  have c: "invSym [[0, 0], [0, 0]] = Inl (Error ''Singular matrix'')"
    by (rule invSym_pivoting[OF h, THEN conjunct2, THEN conjunct2, THEN conjunct2, THEN conjunct1])
  show ?thesis
    using h p1 s1 v iv mm q1 s2 i2 c by (intro conjI)
qed


section \<open>The linear fallback of the trainer\<close>

text \<open>
  C6. The deviation of a column is floored to 1 only when the number computed for it is
  exactly zero. The constant column of 24 times \<open>-0.3\<close>, the fill value of the vegetation
  indices after scaling, has the computed mean \<open>-0.3 + 1 / 2 ^ 53\<close>, so its computed
  deviation is not zero but a number between \<open>1 / 2 ^ 53\<close> and \<open>1 / 2 ^ 52\<close>, and this
  number, not 1, is the deviation that the trainer divides by: on the dataset with this
  one column \<open>_invSym\<close> does not throw and a model is fitted. The same happens for the
  constant column of three times \<open>0.1\<close>. For the constant column of 24 times \<open>0.5\<close> the
  computed deviation is zero and the floor gives 1.
\<close>

theorem constant_column_not_floored:
  "round_double (- 3 / 10) = fill
   \<and> col_mean (replicate 24 fill) = fill + 1 / 2 ^ 53
   \<and> 1 / 2 ^ 53 \<le> col_sd (replicate 24 fill)
   \<and> col_sd (replicate 24 fill) \<le> 1 / 2 ^ 52
   \<and> col_sd (replicate 24 fill) \<noteq> 1
   \<and> train_sig (replicate 24 [fill]) \<noteq> [1]
   \<and> invSym (train_XTX (replicate 24 [fill])) \<noteq> Inl (Error ''Singular matrix'')
   \<and> round_double (1 / 10) = tenth
   \<and> col_mean [tenth, tenth, tenth] = tenth + 1 / 2 ^ 56
   \<and> 1 / 2 ^ 56 \<le> col_sd [tenth, tenth, tenth]
   \<and> col_sd [tenth, tenth, tenth] \<le> 1 / 2 ^ 55
   \<and> col_sd (replicate 24 (1 / 2)) = 1"
proof -
  have b: "1 / 2 ^ 53 \<le> col_sd (replicate 24 fill)" "col_sd (replicate 24 fill) \<le> 1 / 2 ^ 52"
    using fill_sd by simp_all
  have n: "col_sd (replicate 24 fill) \<noteq> 1" using b(2) by auto
  have "column (replicate 24 [fill]) 0 = replicate 24 fill"
    by (simp add: column_def map_replicate)
  then have t: "train_sig (replicate 24 [fill]) = [col_sd (replicate 24 fill)]"
    by (simp add: train_sig_def)
  have m: "col_mean [tenth, tenth, tenth] = tenth + 1 / 2 ^ 56"
    by (simp add: tenth_mean) (simp add: tenth_def)
  have c: "1 / 2 ^ 56 \<le> col_sd [tenth, tenth, tenth]"
    "col_sd [tenth, tenth, tenth] \<le> 1 / 2 ^ 55"
    using tenth_sd by simp_all
  show ?thesis
    using round_double_fill fill_mean b n t fill_trained round_double_tenth m c half_sd
    by simp
qed

end
